theory Spec2Isabelle
  imports Main "HOL-Library.Sublist" "HOL-Library.AList"
begin

section \<open>Actor: message dispatch and forwarding\<close>

text \<open>
  The dispatch methods of class \<open>Actor\<close> (\<open>send\<close>, \<open>sendAndReceive\<close>,
  \<open>_notReadyErrorPromise\<close>, \<open>_checkForward\<close>) read four fields of the actor: its
  \<open>state\<close>, the behaviour \<open>definition\<close>, the \<open>forwardList\<close> and the
  \<open>forwardAllUnknown\<close> slot. A forward-list topic is a string or a \<open>RegExp\<close>; a regular
  expression is represented by the predicate "\<open>topic.match(re)\<close> is not null". The
  behaviour is read only through the truthiness of \<open>this.definition[topic]\<close>. Actor
  references are values of a type parameter \<open>'r\<close>; every reference stored in the
  forwarding table is an object and therefore truthy.
\<close>

datatype matcher = TopicString string | TopicRegExp "string \<Rightarrow> bool"

fun matches :: "matcher \<Rightarrow> string \<Rightarrow> bool" where
  "matches (TopicRegExp re) topic = re topic"
| "matches (TopicString fwTopic) topic = (fwTopic = topic)"

record 'r actor =
  state :: string
  definition_has :: "string \<Rightarrow> bool"
  forwardList :: "(matcher \<times> 'r) list"
  forwardAllUnknown :: "'r option"

text \<open>
  What a call of \<open>send\<close> or \<open>sendAndReceive\<close> does: it returns a rejected promise
  carrying an error message, or it applies the same method of another actor to the
  unchanged argument list (\<open>fwActor.send.apply(fwActor, arguments)\<close>), or it calls the
  mode-specific implementation \<open>send0\<close> / \<open>sendAndReceive0\<close>.
\<close>

datatype ('r, 'v) outcome =
    Reject string
  | ForwardSend 'r string "'v list"
  | ForwardSendAndReceive 'r string "'v list"
  | Send0 string "'v list"
  | SendAndReceive0 string "'v list"

definition notReadyErrorPromise :: "string \<Rightarrow> string" where
  "notReadyErrorPromise st =
     (if st = ''new'' then ''Actor has not yet been initialized.''
      else if st = ''crashed'' then ''Actor crashed, no interaction possible.''
      else if st = ''destroying'' \<or> st = ''destroyed''
        then ''destroy() has been called for this actor, no further interaction possible''
      else ''Actor cannot accept messages, because it is in '' @ [CHR 0x22] @ st @
           [CHR 0x22] @ '' state.'')"

definition checkForward :: "'r actor \<Rightarrow> string \<Rightarrow> 'r option" where
  "checkForward a topic =
     (if forwardAllUnknown a \<noteq> None \<and> \<not> definition_has a topic then forwardAllUnknown a
      else case find (\<lambda>item. matches (fst item) topic) (forwardList a) of
             Some fwItem \<Rightarrow> Some (snd fwItem)
           | None \<Rightarrow> None)"

definition send :: "'r actor \<Rightarrow> string \<Rightarrow> 'v list \<Rightarrow> ('r, 'v) outcome" where
  "send a topic message =
     (if state a \<noteq> ''ready'' then Reject (notReadyErrorPromise (state a))
      else case checkForward a topic of
             Some fwActor \<Rightarrow> ForwardSend fwActor topic message
           | None \<Rightarrow> Send0 topic message)"

definition sendAndReceive :: "'r actor \<Rightarrow> string \<Rightarrow> 'v list \<Rightarrow> ('r, 'v) outcome" where
  "sendAndReceive a topic message =
     (if state a \<noteq> ''ready'' then Reject (notReadyErrorPromise (state a))
      else case checkForward a topic of
             Some fwActor \<Rightarrow> ForwardSendAndReceive fwActor topic message
           | None \<Rightarrow> SendAndReceive0 topic message)"

text \<open>
  \<open>forwardToParent\<close> and \<open>forwardToChild\<close> push their entries at the end of the
  forward list, so the list is in insertion order. \<open>forwardToParent\<close> takes the
  reference \<open>this.getParent()\<close> as an argument; its topics are \<open>None\<close> for the call
  \<open>forwardToParent(true)\<close> and the list of strings and regular expressions
  otherwise. \<open>forwardToChild\<close> takes the children that \<open>P.all(this.childPromises)\<close>
  yields; it fails (\<open>None\<close>) when the actor given is not among them.
\<close>

definition forwardToParent :: "'r \<Rightarrow> matcher list option \<Rightarrow> 'r actor \<Rightarrow> 'r actor" where
  "forwardToParent parent topics a =
     (case topics of
        None \<Rightarrow> a\<lparr>forwardAllUnknown := Some parent\<rparr>
      | Some ts \<Rightarrow> a\<lparr>forwardList := forwardList a @ map (\<lambda>topic. (topic, parent)) ts\<rparr>)"

definition forwardToChild :: "'r list \<Rightarrow> 'r \<Rightarrow> matcher list \<Rightarrow> 'r actor \<Rightarrow> 'r actor option" where
  "forwardToChild children childActor topics a =
     (if childActor \<notin> set children then None
      else Some (a\<lparr>forwardList := forwardList a @ map (\<lambda>topic. (topic, childActor)) topics\<rparr>))"

section \<open>ActorSystem: the default system\<close>

text \<open>
  \<open>ActorSystem.default()\<close> reads and writes the module variable \<open>defaultSystem\<close>
  (\<open>None\<close> is \<open>undefined\<close>). The function takes the variable and the system that
  \<open>new ActorSystem()\<close> would construct, and yields the returned value and the
  variable after the call.
\<close>

definition ActorSystem_default :: "'s option \<Rightarrow> 's \<Rightarrow> 's option \<times> 's option" where
  "ActorSystem_default defaultSystem new_ActorSystem =
     (let defaultSystem' = (if defaultSystem \<noteq> None then Some new_ActorSystem
                            else defaultSystem)
      in (defaultSystem', defaultSystem'))"

fun default_calls :: "nat \<Rightarrow> 's option \<Rightarrow> 's \<Rightarrow> 's option list \<times> 's option" where
  "default_calls 0 v new = ([], v)"
| "default_calls (Suc n) v new =
     (let (r, v') = ActorSystem_default v new; (rs, v'') = default_calls n v' new
      in (r # rs, v''))"

section \<open>Actor: the actor tree, destruction and metrics\<close>

text \<open>
  An actor together with its children. \<open>childPromises\<close> holds the children in the
  order of the \<open>push\<close> calls of \<open>createChild\<close>; every child promise is taken to be
  resolved to the child it stands for. \<open>destroyPromise\<close> is \<open>None\<close> until
  \<open>destroy()\<close> has been called; a promise is identified by the number it gets when it
  is created. \<open>destroy0\<close> is the outcome of the actor's destroy hook (the promise
  returned by \<open>destroy0()\<close> resolves or rejects), \<open>metrics0\<close> the metrics object returned
  by its metrics hook, an object being a list of keys and values in insertion order.
\<close>

datatype hook = Resolves | Rejects

datatype metric = Number int | Metrics "(string \<times> metric) list"

datatype actor_tree =
  Actor (getId: nat) (getName: string) (getState: string) (destroyPromise: "nat option")
        (destroy0: hook) (metrics0: "(string \<times> metric) list") (childPromises: "actor_tree list")

fun subtrees :: "actor_tree \<Rightarrow> actor_tree list" where
  "subtrees (Actor i n st dp h m cs) = Actor i n st dp h m cs # concat (map subtrees cs)"

definition descendants :: "actor_tree \<Rightarrow> actor_tree list" where
  "descendants a = concat (map subtrees (childPromises a))"

definition ids :: "actor_tree \<Rightarrow> nat list" where
  "ids a = map getId (subtrees a)"

definition fresh :: "actor_tree \<Rightarrow> bool" where
  "fresh a = list_all (\<lambda>b. destroyPromise b = None) (subtrees a)"

text \<open>
  \<open>createChild\<close>: allowed in states \<open>new\<close> and \<open>ready\<close> only; the new child is pushed at
  the end of \<open>childPromises\<close>. The listener registered with \<open>once('destroyed', ...)\<close>
  replaces \<open>childPromises\<close> by \<open>_.without(this.childPromises, childPromise)\<close>; the
  identity of a child promise is the identity of its child.
\<close>

definition createChild :: "actor_tree \<Rightarrow> actor_tree \<Rightarrow> string + actor_tree" where
  "createChild a child =
     (if getState a \<noteq> ''new'' \<and> getState a \<noteq> ''ready''
      then Inl (notReadyErrorPromise (getState a))
      else Inr (Actor (getId a) (getName a) (getState a) (destroyPromise a) (destroy0 a)
                  (metrics0 a) (childPromises a @ [child])))"

definition child_destroyed :: "actor_tree \<Rightarrow> nat \<Rightarrow> actor_tree" where
  "child_destroyed a childId =
     Actor (getId a) (getName a) (getState a) (destroyPromise a) (destroy0 a) (metrics0 a)
       (filter (\<lambda>c. getId c \<noteq> childId) (childPromises a))"

subsection \<open>destroy\<close>

text \<open>
  What can be observed of a destruction: state changes, the invocation of a destroy
  hook, its settling, and the \<open>destroyed\<close> event. Log output is left out.
\<close>

datatype event =
    SetState nat string
  | Destroy0 nat
  | Destroy0Settled nat hook
  | Emit nat string

text \<open>
  \<open>P.map(this.childPromises, child => child.destroy().catch(...))\<close> calls
  \<open>child.destroy()\<close> for every child and is fulfilled when all the promises so obtained
  are settled (a rejection is caught and logged). The destructions of the children
  run concurrently: what happens is some interleaving of what happens for each child.
  \<open>merges\<close> gives the interleavings of one run of each.
\<close>

fun merges :: "'a list set list \<Rightarrow> 'a list set" where
  "merges [] = {[]}"
| "merges (X # Xs) = (\<Union>xs\<in>X. \<Union>ys\<in>merges Xs. shuffles xs ys)"

text \<open>
  The synchronous part of \<open>destroy()\<close>: given the actor and the number for the next
  promise to be created, the returned promise, the actor afterwards and the next
  number. A second call returns the stored promise.
\<close>

fun destroy :: "actor_tree \<Rightarrow> nat \<Rightarrow> nat \<times> actor_tree \<times> nat" where
  "destroy (Actor i n st dp h m cs) next =
     (case dp of
        Some p \<Rightarrow> (p, Actor i n st dp h m cs, next)
      | None \<Rightarrow> (next, Actor i n ''destroying'' (Some next) h m cs, Suc next))"

text \<open>
  The runs of everything a call of \<open>destroy()\<close> sets going: nothing when a destroy
  promise is stored already (the call returns that promise, and what the earlier
  call has set going is no part of these runs); otherwise the state change to
  \<open>destroying\<close>, then the
  destruction of the children, then \<open>destroy0()\<close>, and when that has resolved the state
  change to \<open>destroyed\<close> and the \<open>destroyed\<close> event. When \<open>destroy0()\<close> rejects, the last
  callback does not run and the destroy promise is rejected.
\<close>

fun destroy_traces :: "actor_tree \<Rightarrow> event list set" where
  "destroy_traces (Actor i n st dp h m cs) =
     (if dp \<noteq> None then {[]}
      else (\<lambda>children. [SetState i ''destroying''] @ children @
                        [Destroy0 i, Destroy0Settled i h] @
                        (if h = Resolves then [SetState i ''destroyed'', Emit i ''destroyed'']
                         else []))
           ` merges (map destroy_traces cs))"

text \<open>
  Several calls of \<open>destroy()\<close> in a row on the same actor: the promise each call
  returns together with the runs that call sets going.
\<close>

fun destroy_calls ::
  "nat \<Rightarrow> actor_tree \<Rightarrow> nat \<Rightarrow> (nat \<times> event list set) list \<times> actor_tree \<times> nat" where
  "destroy_calls 0 a next = ([], a, next)"
| "destroy_calls (Suc k) a next =
     (case destroy a next of (p, a', next') \<Rightarrow>
        (case destroy_calls k a' next' of (rs, a'', next'') \<Rightarrow>
           ((p, destroy_traces a) # rs, a'', next'')))"

text \<open>
  The events of one actor's own destruction, in the order in which they happen, and
  the order of two events in a run: \<open>before x y tr\<close> holds when \<open>y\<close> occurs after the
  first occurrence of \<open>x\<close>.
\<close>

definition chain_events :: "actor_tree \<Rightarrow> event list" where
  "chain_events a =
     [SetState (getId a) ''destroying'', Destroy0 (getId a),
      Destroy0Settled (getId a) (destroy0 a)] @
     (if destroy0 a = Resolves
      then [SetState (getId a) ''destroyed'', Emit (getId a) ''destroyed''] else [])"

fun before :: "'a \<Rightarrow> 'a \<Rightarrow> 'a list \<Rightarrow> bool" where
  "before x y [] = False"
| "before x y (e # tr) = (if e = x then y \<in> set tr else before x y tr)"

text \<open>
  The order that destroying the children "in reverse insertion order" asks for: of
  two children, the one created later has its destroy hook invoked first.
\<close>

definition reverse_insertion_order :: "actor_tree \<Rightarrow> event list \<Rightarrow> bool" where
  "reverse_insertion_order a tr =
     (\<forall>k l. k < l \<and> l < length (childPromises a) \<longrightarrow>
        before (Destroy0 (getId (childPromises a ! l)))
               (Destroy0 (getId (childPromises a ! k))) tr)"

text \<open>The actor an event belongs to.\<close>

fun event_actor :: "event \<Rightarrow> nat" where
  "event_actor (SetState i s) = i"
| "event_actor (Destroy0 i) = i"
| "event_actor (Destroy0Settled i h) = i"
| "event_actor (Emit i s) = i"

subsection \<open>metrics\<close>

text \<open>
  \<open>metrics()\<close> takes the object that the actor's metrics hook returns (a new empty
  object when that is empty) and lets \<open>P.reduce\<close> assign the children's metrics into
  that very object, one child after the other in the order of \<open>childPromises\<close>:
  \<open>memo[child.getName()] = childMetrics\<close>. An assignment to a key that exists
  replaces its value. A hook either makes a new object at every call, or it returns
  an object that it keeps (\<open>stored\<close>, by actor id); the assignments of \<open>metrics()\<close>
  then stay in the kept object, which the hook returns again at the next call.
  \<open>metrics\<close> gives the result of the call and the actor tree after it, \<open>metrics0\<close>
  being what the hook returns at its next call.
\<close>

fun metrics :: "(nat \<Rightarrow> bool) \<Rightarrow> actor_tree \<Rightarrow> (string \<times> metric) list \<times> actor_tree" where
  "metrics stored (Actor i n st dp h m cs) =
     (let ret = (if m \<noteq> [] then m else []);
          memo = foldl (\<lambda>memo (name, childMetrics). AList.update name (Metrics childMetrics) memo)
                   ret (map (\<lambda>child. (getName child, fst (metrics stored child))) cs)
      in (memo,
          Actor i n st dp h (if stored i \<and> m \<noteq> [] then memo else m)
            (map (\<lambda>child. snd (metrics stored child)) cs)))"

section \<open>ForkedActor: envelopes, correlation ids, timeouts and marshalling\<close>

subsection \<open>Values and envelopes\<close>

text \<open>
  Message arguments and responses are JavaScript values. An object carries the name
  of its constructor, which is what \<open>ActorSystem._typeName\<close> reads; \<open>JActor\<close> is an
  instance of \<open>Actor\<close>, \<open>JServer\<close> an instance of \<open>net.Server\<close> (\<open>True\<close> for an
  \<open>http.Server\<close>). Numbers are integers; \<open>NaN\<close> and fractions are left out.
\<close>

datatype jsval =
    JUndefined | JNull | JBool bool | JNum int | JStr string
  | JArr "jsval list" | JObj string "(string \<times> jsval) list" | JActor nat | JServer bool

fun truthy :: "jsval \<Rightarrow> bool" where
  "truthy JUndefined = False"
| "truthy JNull = False"
| "truthy (JBool b) = b"
| "truthy (JNum n) = (n \<noteq> 0)"
| "truthy (JStr s) = (s \<noteq> [])"
| "truthy _ = True"

fun isArray :: "jsval \<Rightarrow> bool" where
  "isArray (JArr xs) = True"
| "isArray _ = False"

text \<open>
  The JavaScript expression \<open>value[idx]\<close>, as far as \<open>_decodeMessageBody\<close> needs it:
  indexing \<open>undefined\<close> or \<open>null\<close> throws a \<open>TypeError\<close>, indexing an array gives
  the element (\<open>undefined\<close> beyond its end), indexing a string the character at the
  index, and a number, a boolean or an object has no such property.
\<close>

datatype js_error = TypeError | UnknownHandleType jsval

fun js_index :: "jsval \<Rightarrow> nat \<Rightarrow> js_error + jsval" where
  "js_index JUndefined idx = Inl TypeError"
| "js_index JNull idx = Inl TypeError"
| "js_index (JArr xs) idx = Inr (if idx < length xs then xs ! idx else JUndefined)"
| "js_index (JStr s) idx = Inr (if idx < length s then JStr [s ! idx] else JUndefined)"
| "js_index _ idx = Inr JUndefined"

text \<open>
  The body of an \<open>actor-message\<close> envelope. \<open>marshalledType\<close> is the array
  \<open>marshalledTypes\<close> built by \<open>_sendActorMessage\<close>, in which an index that was never
  assigned reads as \<open>undefined\<close>, or its element 0 when there is one argument.
\<close>

record message_body =
  body_topic :: string
  body_message :: jsval
  body_marshalledType :: jsval
  body_receive :: bool

datatype body = MessageBody message_body | ResponseBody jsval | ErrorBody string

record envelope =
  msg_type :: string
  msg_id :: "nat option"
  actorId :: "nat option"
  msg_body :: "body option"

text \<open>\<open>!msg.id\<close>: the id is absent or 0.\<close>

definition no_id :: "envelope \<Rightarrow> bool" where
  "no_id msg = (case msg_id msg of None \<Rightarrow> True | Some i \<Rightarrow> i = 0)"

record options =
  receive_opt :: bool
  timeout_opt :: int
  actorId_opt :: "nat option"

subsection \<open>The endpoint\<close>

text \<open>
  The fields of a \<open>ForkedActor\<close> that its bus protocol reads and writes, from
  the moment \<open>_setBus\<close> has installed the listener (\<open>listening\<close>). A pending
  promise (\<open>P.pending()\<close>) is identified by the number it gets when it is created;
  \<open>settled\<close> records the calls of \<open>resolve\<close> and \<open>reject\<close> on pending promises and
  \<open>bus_sent\<close> the envelopes handed to \<open>bus.send\<close>, both in the order of the calls.
  A timeout object is the pair of its \<open>timeout\<close> (the deadline in milliseconds) and
  its \<open>msgId\<close>. The counter is a natural number: JavaScript numbers count exactly
  up to \<open>2^53\<close>, which no endpoint reaches.
\<close>

datatype settlement = Resolve jsval | RejectWith string

record forked_actor =
  actor_id :: nat
  parent_id :: "nat option"
  listening :: bool
  idCounter :: nat
  responsePromises :: "nat \<rightharpoonup> nat"
  timeouts :: "(nat \<times> nat) list"
  timeoutWorkerInterval :: bool
  lastReceiveTimestamp :: "nat option"
  nextPending :: nat
  settled :: "(nat \<times> settlement) list"
  bus_sent :: "envelope list"

definition ForkedActor :: "nat \<Rightarrow> nat option \<Rightarrow> forked_actor" where
  "ForkedActor i parent =
     \<lparr>actor_id = i, parent_id = parent, listening = True, idCounter = 1,
      responsePromises = Map.empty, timeouts = [], timeoutWorkerInterval = True,
      lastReceiveTimestamp = None, nextPending = 0, settled = [], bus_sent = []\<rparr>"

text \<open>
  \<open>_.sortedIndex(this.timeouts, timeoutObject, 'timeout')\<close>: the lowest index at
  which the object can be inserted into the sorted array keeping it sorted.
\<close>

definition sortedIndex :: "(nat \<times> nat) list \<Rightarrow> nat \<times> nat \<Rightarrow> nat" where
  "sortedIndex array obj = length (takeWhile (\<lambda>t. fst t < fst obj) array)"

text \<open>
  \<open>_send0(msg, options)\<close> at time \<open>now\<close>: the new state and the pending promise that
  the returned promise yields (\<open>None\<close> without the \<open>receive\<close> option). The bus is taken
  to accept the envelope.
\<close>

definition send0 ::
  "envelope \<Rightarrow> options \<Rightarrow> nat \<Rightarrow> forked_actor \<Rightarrow> forked_actor \<times> nat option" where
  "send0 msg opts now s =
     (let msgId = (if no_id msg then idCounter s else (case msg_id msg of Some i \<Rightarrow> i | None \<Rightarrow> 0));
          s1 = (if no_id msg then s\<lparr>idCounter := idCounter s + 1\<rparr> else s);
          msg' = msg\<lparr>msg_id := Some msgId,
                     actorId := (case actorId_opt opts of Some a \<Rightarrow> Some a
                                 | None \<Rightarrow> Some (actor_id s))\<rparr>;
          s2 = (if receive_opt opts
                then s1\<lparr>nextPending := nextPending s1 + 1,
                        responsePromises := (responsePromises s1)(msgId \<mapsto> nextPending s1),
                        timeouts :=
                          (if timeout_opt opts > 0
                           then (let timeoutObject = (now + nat (timeout_opt opts), msgId);
                                     idx = sortedIndex (timeouts s1) timeoutObject
                                 in take idx (timeouts s1) @ [timeoutObject] @
                                    drop idx (timeouts s1))
                           else timeouts s1)\<rparr>
                else s1)
      in (s2\<lparr>bus_sent := bus_sent s2 @ [msg']\<rparr>,
          if receive_opt opts then Some (nextPending s1) else None))"

definition sendErrorResponse :: "nat option \<Rightarrow> string \<Rightarrow> nat \<Rightarrow> forked_actor \<Rightarrow> forked_actor" where
  "sendErrorResponse msgId errorText now s =
     fst (send0 \<lparr>msg_type = ''actor-response'', msg_id = msgId, actorId = None,
                 msg_body = Some (ErrorBody errorText)\<rparr>
               \<lparr>receive_opt = False, timeout_opt = 0, actorId_opt = None\<rparr> now s)"

text \<open>
  The callback of the timeout worker, run by \<open>setInterval\<close> every 1000 ms: while the
  head of \<open>timeouts\<close> has elapsed, it is taken off, its entry of \<open>responsePromises\<close> is
  deleted and the promise found there, if any, is rejected.
\<close>

fun timeoutLoop ::
  "nat \<Rightarrow> (nat \<times> nat) list \<Rightarrow> (nat \<rightharpoonup> nat) \<Rightarrow> (nat \<times> settlement) list \<Rightarrow>
   (nat \<times> nat) list \<times> (nat \<rightharpoonup> nat) \<times> (nat \<times> settlement) list" where
  "timeoutLoop now [] rp st = ([], rp, st)"
| "timeoutLoop now ((timeout, msgId) # ts) rp st =
     (if timeout \<le> now
      then timeoutLoop now ts (rp(msgId := None))
             (case rp msgId of
                Some promise \<Rightarrow> st @ [(promise, RejectWith ''Response timed out.'')]
              | None \<Rightarrow> st)
      else ((timeout, msgId) # ts, rp, st))"

definition timeoutWorker :: "nat \<Rightarrow> forked_actor \<Rightarrow> forked_actor" where
  "timeoutWorker now s =
     (case timeoutLoop now (timeouts s) (responsePromises s) (settled s) of
        (ts, rp, st) \<Rightarrow> s\<lparr>timeouts := ts, responsePromises := rp, settled := st\<rparr>)"

text \<open>
  The listener for \<open>message\<close> events of the bus, at time \<open>now\<close>. Where the listener
  starts asynchronous work (\<open>actor-message\<close> with a valid target, \<open>actor-tree\<close>,
  \<open>actor-metrics\<close>, \<open>destroy-actor\<close>), the envelope this work sends in the end is a
  later call of \<open>_send0\<close> with the id of the incoming envelope and no options.
\<close>

definition topic_of :: "body \<Rightarrow> string" where
  "topic_of b = (case b of MessageBody m \<Rightarrow> body_topic m | _ \<Rightarrow> [])"

definition onResponse :: "envelope \<Rightarrow> forked_actor \<Rightarrow> forked_actor" where
  "onResponse msg s =
     (case msg_id msg of
        None \<Rightarrow> s
      | Some i \<Rightarrow>
         (case responsePromises s i of
            None \<Rightarrow> s
          | Some respPromise \<Rightarrow>
              s\<lparr>responsePromises := (responsePromises s)(i := None),
                settled := settled s @
                  [(respPromise,
                    (case msg_body msg of
                       Some (ErrorBody e) \<Rightarrow> if e \<noteq> [] then RejectWith e else Resolve JUndefined
                     | Some (ResponseBody r) \<Rightarrow> Resolve r
                     | Some (MessageBody m) \<Rightarrow> Resolve JUndefined
                     | None \<Rightarrow> Resolve JUndefined))]\<rparr>))"

definition onMessage :: "envelope \<Rightarrow> nat \<Rightarrow> forked_actor \<Rightarrow> forked_actor" where
  "onMessage msg now s0 =
     (if \<not> listening s0 then s0
      else let s = s0\<lparr>lastReceiveTimestamp := Some now\<rparr> in
        if no_id msg then s
        else if msg_type msg = ''actor-message'' then
          (case msg_body msg of
             None \<Rightarrow> sendErrorResponse (msg_id msg) ''Missing message body'' now s
           | Some b \<Rightarrow>
               if topic_of b = [] then
                 sendErrorResponse (msg_id msg) ''Missing message topic'' now s
               else if actorId msg \<noteq> Some (actor_id s)
                       \<and> (parent_id s = None \<or> actorId msg \<noteq> parent_id s) then
                 sendErrorResponse (msg_id msg)
                   ''Target actor ID doesn't match neither self nor parent'' now s
               else s)
        else if actorId msg \<noteq> Some (actor_id s) then s
        else if msg_type msg = ''actor-tree'' \<or> msg_type msg = ''actor-metrics'' then s
        else if msg_type msg = ''actor-response'' \<or> msg_type msg = ''parent-pong'' then
          onResponse msg s
        else if msg_type msg = ''destroy-actor'' then s
        else if msg_type msg = ''actor-destroyed'' then
          (let s1 = s\<lparr>timeoutWorkerInterval := False\<rparr>;
               s2 = (case msg_id msg of
                       None \<Rightarrow> s1
                     | Some i \<Rightarrow>
                        (case responsePromises s1 i of
                           None \<Rightarrow> s1
                         | Some respPromise0 \<Rightarrow>
                             s1\<lparr>responsePromises := (responsePromises s1)(i := None),
                                settled := settled s1 @ [(respPromise0, Resolve JUndefined)]\<rparr>))
           in fst (send0 \<lparr>msg_type = ''actor-destroyed-ack'', msg_id = None, actorId = None,
                          msg_body = None\<rparr>
                        \<lparr>receive_opt = False, timeout_opt = 0, actorId_opt = None\<rparr> now s2))
        else if msg_type msg = ''actor-destroyed-ack'' then s\<lparr>listening := False\<rparr>
        else if msg_type msg = ''parent-ping'' then
          fst (send0 \<lparr>msg_type = ''parent-pong'', msg_id = msg_id msg, actorId = None,
                      msg_body = None\<rparr>
                    \<lparr>receive_opt = False, timeout_opt = 0, actorId_opt = None\<rparr> now s)
        else s)"

text \<open>
  What happens at an endpoint, one after the other: calls of \<open>_send0\<close>, messages
  arriving on the bus, and runs of the timeout worker (none after \<open>clearInterval\<close>).
  Every call of \<open>_send0\<close> in the source that carries a preset id sends a reply and has
  no \<open>receive\<close> option; \<open>request_op\<close> says so of an operation.
\<close>

datatype op = OpSend0 envelope options nat | OpMessage envelope nat | OpTimeoutWorker nat

fun step :: "forked_actor \<Rightarrow> op \<Rightarrow> forked_actor" where
  "step s (OpSend0 msg opts now) = fst (send0 msg opts now s)"
| "step s (OpMessage msg now) = onMessage msg now s"
| "step s (OpTimeoutWorker now) = (if timeoutWorkerInterval s then timeoutWorker now s else s)"

definition run :: "forked_actor \<Rightarrow> op list \<Rightarrow> forked_actor" where
  "run s ops = foldl step s ops"

fun request_op :: "op \<Rightarrow> bool" where
  "request_op (OpSend0 msg opts now) = (if receive_opt opts then no_id msg else True)"
| "request_op _ = True"

text \<open>
  Two properties of the pending promises of an endpoint, used as invariants:
  \<open>pending_below\<close>, every id with a pending promise is below the counter; and
  \<open>unsettled\<close>, every promise in \<open>responsePromises\<close> is stored under one id only and has
  not been resolved or rejected yet.
\<close>

definition pending_below :: "forked_actor \<Rightarrow> bool" where
  "pending_below s = (\<forall>k p. responsePromises s k = Some p \<longrightarrow> k < idCounter s)"

definition unsettled ::
  "(nat \<rightharpoonup> nat) \<Rightarrow> (nat \<times> settlement) list \<Rightarrow> nat \<Rightarrow> bool" where
  "unsettled rp st np =
     ((\<forall>k d. rp k = Some d \<longrightarrow>
          d < np \<and> d \<notin> fst ` set st \<and> (\<forall>k'. rp k' = Some d \<longrightarrow> k' = k))
      \<and> (\<forall>e\<in>set st. fst e < np))"

text \<open>
  For a request with the id \<open>k\<close>, the pending promise \<open>d\<close> and a deadline:
  \<open>awaiting\<close> says that the request is still waiting, its promise stored under \<open>k\<close>
  and its deadline, the only one with the id \<open>k\<close>, in \<open>timeouts\<close>; \<open>quiet_op\<close> says
  of an operation that it is neither the arrival of an envelope with the id \<open>k\<close> that
  answers a request (\<open>actor-response\<close>, \<open>parent-pong\<close>, \<open>actor-destroyed\<close>) nor a
  run of the timeout worker at or after the deadline. \<open>timeouts_below\<close>: every id in
  \<open>timeouts\<close> is below the counter.
\<close>

definition awaiting :: "nat \<Rightarrow> nat \<Rightarrow> nat \<Rightarrow> forked_actor \<Rightarrow> bool" where
  "awaiting deadline k d s =
     ((deadline, k) \<in> set (timeouts s) \<and> responsePromises s k = Some d \<and> k < idCounter s
      \<and> list_all (\<lambda>e. snd e \<noteq> k \<or> fst e = deadline) (timeouts s))"

fun quiet_op :: "nat \<Rightarrow> nat \<Rightarrow> op \<Rightarrow> bool" where
  "quiet_op k deadline (OpSend0 msg opts now) = True"
| "quiet_op k deadline (OpMessage msg now) =
     (\<not> (msg_id msg = Some k
         \<and> (msg_type msg = ''actor-response'' \<or> msg_type msg = ''parent-pong''
            \<or> msg_type msg = ''actor-destroyed'')))"
| "quiet_op k deadline (OpTimeoutWorker now) = (now < deadline)"

definition timeouts_below :: "forked_actor \<Rightarrow> bool" where
  "timeouts_below s = list_all (\<lambda>e. snd e < idCounter s) (timeouts s)"

subsection \<open>Marshalling of message arguments\<close>

text \<open>
  A marshaller has a type name and the two functions \<open>marshall\<close> and \<open>unmarshall\<close>.
  The system holds the registry \<open>marshallers\<close>, keyed by type name, and the two
  reference marshallers, whose \<open>type\<close> is \<open>InterProcessReference\<close> and
  \<open>InterHostReference\<close>. \<open>typeName\<close> is \<open>ActorSystem._typeName\<close> on a value: nothing
  for a falsy value, else the name of the value's constructor.
\<close>

record marshaller =
  marshaller_type :: string
  marshall :: "jsval \<Rightarrow> jsval"
  unmarshall :: "jsval \<Rightarrow> jsval"

record actor_system =
  marshallers :: "string \<Rightarrow> marshaller option"
  forkedActorReferenceMarshaller :: marshaller
  remoteActorReferenceMarshaller :: marshaller

definition typeName :: "jsval \<Rightarrow> string option" where
  "typeName v =
     (if \<not> truthy v then None
      else case v of
             JBool b \<Rightarrow> Some ''Boolean''
           | JNum n \<Rightarrow> Some ''Number''
           | JStr s \<Rightarrow> Some ''String''
           | JArr xs \<Rightarrow> Some ''Array''
           | JObj c props \<Rightarrow> Some c
           | JActor i \<Rightarrow> Some ''Actor''
           | JServer h \<Rightarrow> Some ''Server''
           | _ \<Rightarrow> None)"

definition getMarshaller :: "actor_system \<Rightarrow> string \<Rightarrow> marshaller option" where
  "getMarshaller system name = marshallers system name"

definition getMarshallerForMessage :: "actor_system \<Rightarrow> jsval \<Rightarrow> marshaller option" where
  "getMarshallerForMessage system v =
     marshallers system (case typeName v of Some name \<Rightarrow> name | None \<Rightarrow> ''undefined'')"

fun isActor :: "jsval \<Rightarrow> bool" where
  "isActor (JActor i) = True"
| "isActor _ = False"

fun isServer :: "jsval \<Rightarrow> bool" where
  "isServer (JServer h) = True"
| "isServer _ = False"

text \<open>
  The mapper of \<open>P.map\<close> in \<open>_sendActorMessage\<close>: the marshalled argument and what is
  stored at its index of \<open>marshalledTypes\<close>.
\<close>

definition marshallPart :: "actor_system \<Rightarrow> marshaller \<Rightarrow> jsval \<Rightarrow> jsval \<times> jsval" where
  "marshallPart system referenceMarshaller subMessage =
     (case (if isActor subMessage then Some referenceMarshaller
            else getMarshallerForMessage system subMessage) of
        Some m \<Rightarrow> (marshall m subMessage, JStr (marshaller_type m))
      | None \<Rightarrow> (subMessage, JUndefined))"

text \<open>
  The body that \<open>_sendActorMessage(topic, message, options)\<close> hands to \<open>_send0\<close>, and
  the socket handle when the message is one server.
\<close>

definition actorMessageBody ::
  "actor_system \<Rightarrow> marshaller \<Rightarrow> string \<Rightarrow> jsval list \<Rightarrow> bool \<Rightarrow> message_body \<times> jsval option" where
  "actorMessageBody system referenceMarshaller topic message receive =
     (if length message = 1 \<and> isServer (hd message) then
        (\<lparr>body_topic = topic,
          body_message = JObj ''Object''
            [(''handleType'',
              JStr (if hd message = JServer True then ''http.Server'' else ''net.Server''))],
          body_marshalledType = JUndefined, body_receive = receive\<rparr>,
         Some (hd message))
      else
        (let parts = map (marshallPart system referenceMarshaller) message;
             messageParts = map fst parts;
             marshalledTypes = map snd parts
         in if length messageParts = 1
            then (\<lparr>body_topic = topic, body_message = hd messageParts,
                   body_marshalledType = hd marshalledTypes, body_receive = receive\<rparr>, None)
            else (\<lparr>body_topic = topic, body_message = JArr messageParts,
                   body_marshalledType = JArr marshalledTypes, body_receive = receive\<rparr>, None)))"

text \<open>
  \<open>_decodeMessageBody(body, handle)\<close>: the decoded argument list, or the error
  raised (\<open>UnknownHandleType t\<close> is the error with the message
  \<open>Unknown handle type: t\<close>). With a handle of type \<open>http.Server\<close> the result is a
  new \<open>http.Server\<close> listening on the handle. Calling \<open>unmarshall\<close> on a marshaller
  that the registry does not have throws a \<open>TypeError\<close>.
\<close>

definition unmarshallPart :: "actor_system \<Rightarrow> jsval \<Rightarrow> jsval \<Rightarrow> nat \<Rightarrow> js_error + jsval" where
  "unmarshallPart system marshalledTypes subMessage idx =
     (case js_index marshalledTypes idx of
        Inl e \<Rightarrow> Inl e
      | Inr type \<Rightarrow>
          if truthy type then
            (case (if type = JStr ''InterProcessReference''
                     then Some (forkedActorReferenceMarshaller system)
                   else if type = JStr ''InterHostReference''
                     then Some (remoteActorReferenceMarshaller system)
                   else (case type of JStr name \<Rightarrow> getMarshaller system name | _ \<Rightarrow> None)) of
               Some m \<Rightarrow> Inr (unmarshall m subMessage)
             | None \<Rightarrow> Inl TypeError)
          else Inr subMessage)"

fun unmarshallParts ::
  "actor_system \<Rightarrow> jsval \<Rightarrow> jsval list \<Rightarrow> nat \<Rightarrow> js_error + jsval list" where
  "unmarshallParts system marshalledTypes [] idx = Inr []"
| "unmarshallParts system marshalledTypes (subMessage # rest) idx =
     (case unmarshallPart system marshalledTypes subMessage idx of
        Inl e \<Rightarrow> Inl e
      | Inr v \<Rightarrow>
          (case unmarshallParts system marshalledTypes rest (Suc idx) of
             Inl e \<Rightarrow> Inl e
           | Inr vs \<Rightarrow> Inr (v # vs)))"

definition handleType :: "jsval \<Rightarrow> js_error + jsval" where
  "handleType m = (case m of
                     JUndefined \<Rightarrow> Inl TypeError
                   | JNull \<Rightarrow> Inl TypeError
                   | JObj c props \<Rightarrow> (case map_of props ''handleType'' of
                                         Some v \<Rightarrow> Inr v | None \<Rightarrow> Inr JUndefined)
                   | _ \<Rightarrow> Inr JUndefined)"

definition decodeMessageBody ::
  "actor_system \<Rightarrow> message_body \<Rightarrow> jsval option \<Rightarrow> js_error + jsval list" where
  "decodeMessageBody system body handle =
     (case handle of
        Some h \<Rightarrow>
          (case handleType (body_message body) of
             Inl e \<Rightarrow> Inl e
           | Inr t \<Rightarrow>
               if t = JStr ''net.Server'' then Inr [h]
               else if t = JStr ''http.Server'' then Inr [JServer True]
               else Inl (UnknownHandleType t))
      | None \<Rightarrow>
          (let (message, marshalledTypes) =
                 (if \<not> truthy (body_message body) then (JArr [], JArr [])
                  else (body_message body, body_marshalledType body));
               (message', marshalledTypes') =
                 (if \<not> isArray message then (JArr [message], JArr [marshalledTypes])
                  else (message, marshalledTypes))
           in case message' of
                JArr subMessages \<Rightarrow> unmarshallParts system marshalledTypes' subMessages 0
              | _ \<Rightarrow> Inl TypeError))"

section \<open>Dispatch: results\<close>

lemma find_first_match:
  assumes "i < length xs" and "P (xs ! i)" and "\<forall>j<i. \<not> P (xs ! j)"
  shows "find P xs = Some (xs ! i)"
  using assms
proof (induction xs arbitrary: i)
  case Nil
  then show ?case by simp
next
  case (Cons x xs)
  show ?case
  proof (cases i)
    case 0
    with Cons.prems show ?thesis by simp
  next
    case (Suc k)
    with Cons.prems have "\<not> P x" by auto
    moreover have "find P xs = Some (xs ! k)"
    proof (rule Cons.IH)
      show "k < length xs" using Cons.prems Suc by simp
      show "P (xs ! k)" using Cons.prems Suc by simp
      show "\<forall>j<k. \<not> P (xs ! j)"
      proof (intro allI impI)
        fix j assume "j < k"
        then have "Suc j < i" using Suc by simp
        with Cons.prems have "\<not> P ((x # xs) ! Suc j)" by blast
        then show "\<not> P (xs ! j)" by simp
      qed
    qed
    ultimately show ?thesis using Suc by simp
  qed
qed

lemma find_none_match: "find P xs = None \<longleftrightarrow> (\<forall>i<length xs. \<not> P (xs ! i))"
  unfolding find_None_iff by (metis in_set_conv_nth)

lemma forward_entries_in_insertion_order:
  "forwardList (forwardToParent parent (Some ts) a)
     = forwardList a @ map (\<lambda>topic. (topic, parent)) ts"
  "forwardList (forwardToParent parent None a) = forwardList a"
  "childActor \<in> set children \<Longrightarrow>
     map_option forwardList (forwardToChild children childActor topics a)
       = Some (forwardList a @ map (\<lambda>topic. (topic, childActor)) topics)"
  by (simp_all add: forwardToParent_def forwardToChild_def)

text \<open>
  Claim C3. A \<open>send\<close> or \<open>sendAndReceive\<close> on an actor whose state is not \<open>ready\<close> is
  rejected with the not-ready error of \<open>_notReadyErrorPromise\<close>, whose message is
  chosen by the state: one message for \<open>new\<close>, one for \<open>crashed\<close>, one shared by
  \<open>destroying\<close> and \<open>destroyed\<close>. In state \<open>new\<close> (before \<open>initialize\<close> has completed)
  the message of the rejected \<open>sendAndReceive\<close> contains
  \<open>Actor has not yet been initialized\<close>.
\<close>

theorem not_ready_rejects:
  assumes "state a \<noteq> ''ready''"
  shows "send a topic message = Reject (notReadyErrorPromise (state a))
       \<and> sendAndReceive a topic message = Reject (notReadyErrorPromise (state a))
       \<and> notReadyErrorPromise ''new'' = ''Actor has not yet been initialized.''
       \<and> notReadyErrorPromise ''crashed'' = ''Actor crashed, no interaction possible.''
       \<and> notReadyErrorPromise ''destroying'' =
           ''destroy() has been called for this actor, no further interaction possible''
       \<and> notReadyErrorPromise ''destroyed'' =
           ''destroy() has been called for this actor, no further interaction possible''
       \<and> (state a = ''new'' \<longrightarrow>
            (\<exists>e. sendAndReceive a topic message = Reject e
                 \<and> sublist ''Actor has not yet been initialized'' e))"
proof -
  have "sublist ''Actor has not yet been initialized''
          (''Actor has not yet been initialized'' @ ''.'')"
    unfolding sublist_def by (intro exI[of _ "[]"] exI[of _ "''.''"]) simp
  then have "sublist ''Actor has not yet been initialized''
          ''Actor has not yet been initialized.''" by simp
  then show ?thesis
    using assms by (simp add: send_def sendAndReceive_def notReadyErrorPromise_def)
qed

theorem not_ready_rejects_witness:
  "sendAndReceive \<lparr>state = ''new'', definition_has = (\<lambda>t. t = ''hello''),
                   forwardList = [], forwardAllUnknown = (None :: nat option)\<rparr>
                  ''hello'' [1 :: int]
     = Reject ''Actor has not yet been initialized.''
   \<and> send \<lparr>state = ''destroyed'', definition_has = (\<lambda>t. t = ''hello''),
           forwardList = [], forwardAllUnknown = (None :: nat option)\<rparr>
          ''hello'' [1 :: int]
     = Reject ''destroy() has been called for this actor, no further interaction possible''"
  using not_ready_rejects[of "\<lparr>state = ''new'', definition_has = (\<lambda>t. t = ''hello''),
                   forwardList = [], forwardAllUnknown = (None :: nat option)\<rparr>"
                   "''hello''" "[1 :: int]"]
        not_ready_rejects[of "\<lparr>state = ''destroyed'', definition_has = (\<lambda>t. t = ''hello''),
                   forwardList = [], forwardAllUnknown = (None :: nat option)\<rparr>"
                   "''hello''" "[1 :: int]"]
  by simp

text \<open>
  Claim C1. In state \<open>ready\<close>, \<open>send\<close> and \<open>sendAndReceive\<close> route a topic as
  follows, always passing the topic and the variadic arguments on unchanged.
  When \<open>forwardAllUnknown\<close> is set and the behaviour has no handler for the topic, the
  message goes to the \<open>forwardAllUnknown\<close> reference, whatever the forward list holds:
  no forward-list entry takes precedence over it in that case. In every other case
  \<open>forwardAllUnknown\<close> is not used: a topic matched by the forward list (a string
  matcher by equality, a regular expression by its match test) goes to the target of
  the matching entry with the least index, that is the first in insertion order, and
  a topic matched by no entry is handled by the actor's own \<open>send0\<close> /
  \<open>sendAndReceive0\<close>.
\<close>

theorem forward_first_match:
  assumes "state a = ''ready''"
  shows "(forwardAllUnknown a = Some p \<and> \<not> definition_has a topic \<longrightarrow>
            send a topic message = ForwardSend p topic message
          \<and> sendAndReceive a topic message = ForwardSendAndReceive p topic message)
       \<and> ((forwardAllUnknown a = None \<or> definition_has a topic)
            \<and> i < length (forwardList a)
            \<and> matches (fst (forwardList a ! i)) topic
            \<and> (\<forall>j<i. \<not> matches (fst (forwardList a ! j)) topic) \<longrightarrow>
            send a topic message = ForwardSend (snd (forwardList a ! i)) topic message
          \<and> sendAndReceive a topic message =
              ForwardSendAndReceive (snd (forwardList a ! i)) topic message)
       \<and> ((forwardAllUnknown a = None \<or> definition_has a topic)
            \<and> (\<forall>j<length (forwardList a). \<not> matches (fst (forwardList a ! j)) topic) \<longrightarrow>
            send a topic message = Send0 topic message
          \<and> sendAndReceive a topic message = SendAndReceive0 topic message)"
proof (intro conjI impI)
  assume h: "forwardAllUnknown a = Some p \<and> \<not> definition_has a topic"
  then have "checkForward a topic = Some p" by (simp add: checkForward_def)
  then show "send a topic message = ForwardSend p topic message"
    and "sendAndReceive a topic message = ForwardSendAndReceive p topic message"
    using assms by (simp_all add: send_def sendAndReceive_def)
next
  assume h: "(forwardAllUnknown a = None \<or> definition_has a topic)
            \<and> i < length (forwardList a)
            \<and> matches (fst (forwardList a ! i)) topic
            \<and> (\<forall>j<i. \<not> matches (fst (forwardList a ! j)) topic)"
  then have "find (\<lambda>item. matches (fst item) topic) (forwardList a) = Some (forwardList a ! i)"
    by (intro find_first_match) simp_all
  with h have "checkForward a topic = Some (snd (forwardList a ! i))"
    by (auto simp add: checkForward_def)
  then show "send a topic message = ForwardSend (snd (forwardList a ! i)) topic message"
    and "sendAndReceive a topic message =
              ForwardSendAndReceive (snd (forwardList a ! i)) topic message"
    using assms by (simp_all add: send_def sendAndReceive_def)
next
  assume h: "(forwardAllUnknown a = None \<or> definition_has a topic)
            \<and> (\<forall>j<length (forwardList a). \<not> matches (fst (forwardList a ! j)) topic)"
  then have "find (\<lambda>item. matches (fst item) topic) (forwardList a) = None"
    by (simp add: find_none_match)
  with h have "checkForward a topic = None"
    by (auto simp add: checkForward_def)
  then show "send a topic message = Send0 topic message"
    and "sendAndReceive a topic message = SendAndReceive0 topic message"
    using assms by (simp_all add: send_def sendAndReceive_def)
qed

text \<open>
  The witness: an actor with handler \<open>own\<close>, whose forward list sends \<open>plus\<close> to
  actor 7, everything beginning with \<open>p\<close> to actor 8 and \<open>plus\<close> again to actor 9.
  Without \<open>forwardAllUnknown\<close> the topic \<open>plus\<close> goes to actor 7 (index 0) and \<open>pow\<close>
  to actor 8 (index 1); with \<open>forwardAllUnknown\<close> set to actor 1, \<open>plus\<close> goes to
  actor 1, and \<open>own\<close>, which has a handler and no entry, stays with the actor.
\<close>

theorem forward_first_match_witness:
  "send \<lparr>state = ''ready'', definition_has = (\<lambda>t. t = ''own''),
         forwardList = [(TopicString ''plus'', 7), (TopicRegExp (\<lambda>t. take 1 t = ''p''), 8),
                        (TopicString ''plus'', 9)],
         forwardAllUnknown = (None :: nat option)\<rparr> ''plus'' [2 :: int, 3]
     = ForwardSend 7 ''plus'' [2, 3]
   \<and> sendAndReceive \<lparr>state = ''ready'', definition_has = (\<lambda>t. t = ''own''),
         forwardList = [(TopicString ''plus'', 7), (TopicRegExp (\<lambda>t. take 1 t = ''p''), 8),
                        (TopicString ''plus'', 9)],
         forwardAllUnknown = (None :: nat option)\<rparr> ''pow'' [2 :: int, 3]
     = ForwardSendAndReceive 8 ''pow'' [2, 3]
   \<and> send \<lparr>state = ''ready'', definition_has = (\<lambda>t. t = ''own''),
         forwardList = [(TopicString ''plus'', 7), (TopicRegExp (\<lambda>t. take 1 t = ''p''), 8),
                        (TopicString ''plus'', 9)],
         forwardAllUnknown = Some (1 :: nat)\<rparr> ''plus'' [2 :: int, 3]
     = ForwardSend 1 ''plus'' [2, 3]
   \<and> sendAndReceive \<lparr>state = ''ready'', definition_has = (\<lambda>t. t = ''own''),
         forwardList = [(TopicString ''plus'', 7), (TopicRegExp (\<lambda>t. take 1 t = ''p''), 8),
                        (TopicString ''plus'', 9)],
         forwardAllUnknown = Some (1 :: nat)\<rparr> ''own'' [2 :: int, 3]
     = SendAndReceive0 ''own'' [2, 3]"
  using forward_first_match[where a = "\<lparr>state = ''ready'', definition_has = (\<lambda>t. t = ''own''),
         forwardList = [(TopicString ''plus'', 7), (TopicRegExp (\<lambda>t. take 1 t = ''p''), 8),
                        (TopicString ''plus'', 9)],
         forwardAllUnknown = (None :: nat option)\<rparr>" and p = 0 and topic = "''plus''" and i = 0 and message = "[2 :: int, 3]"]
        forward_first_match[where a = "\<lparr>state = ''ready'', definition_has = (\<lambda>t. t = ''own''),
         forwardList = [(TopicString ''plus'', 7), (TopicRegExp (\<lambda>t. take 1 t = ''p''), 8),
                        (TopicString ''plus'', 9)],
         forwardAllUnknown = (None :: nat option)\<rparr>" and p = 0 and topic = "''pow''" and i = 1 and message = "[2 :: int, 3]"]
        forward_first_match[where a = "\<lparr>state = ''ready'', definition_has = (\<lambda>t. t = ''own''),
         forwardList = [(TopicString ''plus'', 7), (TopicRegExp (\<lambda>t. take 1 t = ''p''), 8),
                        (TopicString ''plus'', 9)],
         forwardAllUnknown = Some (1 :: nat)\<rparr>" and p = 1 and topic = "''plus''" and i = 0 and message = "[2 :: int, 3]"]
        forward_first_match[where a = "\<lparr>state = ''ready'', definition_has = (\<lambda>t. t = ''own''),
         forwardList = [(TopicString ''plus'', 7), (TopicRegExp (\<lambda>t. take 1 t = ''p''), 8),
                        (TopicString ''plus'', 9)],
         forwardAllUnknown = Some (1 :: nat)\<rparr>" and p = 1 and topic = "''own''" and i = 0 and message = "[2 :: int, 3]"]
  by (simp add: nth_Cons' less_Suc_eq)

text \<open>
  Claim C9. The claim asks for a lazy singleton: the first call of
  \<open>ActorSystem.default()\<close> constructs and stores the default system, later calls
  return it. The source tests \<open>if (defaultSystem)\<close> where \<open>if (!defaultSystem)\<close> is
  needed, so from the initial \<open>undefined\<close> variable no call ever constructs anything:
  each of any number of calls returns \<open>undefined\<close> and leaves the variable
  \<open>undefined\<close>.
\<close>

theorem default_never_constructs:
  "default_calls n None new_ActorSystem = (replicate n None, None)"
  by (induction n) (simp_all add: ActorSystem_default_def Let_def)

lemma default_reconstructs_when_set:
  "ActorSystem_default (Some old) new_ActorSystem = (Some new_ActorSystem, Some new_ActorSystem)"
  by (simp add: ActorSystem_default_def Let_def)


section \<open>Destruction: results\<close>

subsection \<open>Order of events and interleavings\<close>

lemma subseq_shuffles:
  "zs \<in> shuffles xs ys \<Longrightarrow> subseq xs zs \<and> subseq ys zs"
  by (induction xs ys arbitrary: zs rule: shuffles.induct) auto

lemma before_in_set: "before x y tr \<Longrightarrow> y \<in> set tr"
  by (induction tr) (auto split: if_splits)

lemma subseq_mem: "subseq xs ys \<Longrightarrow> y \<in> set xs \<Longrightarrow> y \<in> set ys"
  by (induction rule: list_emb.induct) auto

lemma before_subseq:
  "subseq xs ys \<Longrightarrow> before x y xs \<Longrightarrow> before x y ys"
proof (induction rule: list_emb.induct)
  case (list_emb_Nil ys)
  then show ?case by simp
next
  case (list_emb_Cons xs ys z)
  then have "before x y ys" by simp
  then show ?case by (simp add: before_in_set)
next
  case (list_emb_Cons2 x' y' xs ys)
  show ?case
  proof (cases "x' = x")
    case True
    with list_emb_Cons2 have "y \<in> set xs" by simp
    then have "y \<in> set ys" using list_emb_Cons2(2) by (rule subseq_mem[rotated])
    then show ?thesis using True list_emb_Cons2(1) by simp
  next
    case False
    with list_emb_Cons2 show ?thesis by simp
  qed
qed

lemma before_appendI: "x \<in> set xs \<Longrightarrow> before x y (xs @ y # zs)"
  by (induction xs) auto

lemma before_consI: "y \<in> set zs \<Longrightarrow> before x y (xs @ x # zs)"
  by (induction xs) auto

lemma merges_strands:
  "ms \<in> merges Xs \<Longrightarrow> \<exists>ts. list_all2 (\<lambda>t X. t \<in> X) ts Xs \<and> ms \<in> merges (map (\<lambda>t. {t}) ts)"
proof (induction Xs arbitrary: ms)
  case Nil
  then show ?case by simp
next
  case (Cons X Xs)
  from Cons.prems obtain xs ys where xs: "xs \<in> X" and ys: "ys \<in> merges Xs"
    and ms: "ms \<in> shuffles xs ys"
    by auto
  from Cons.IH[OF ys] obtain ts where ts: "list_all2 (\<lambda>t X. t \<in> X) ts Xs"
    "ys \<in> merges (map (\<lambda>t. {t}) ts)" by blast
  have "list_all2 (\<lambda>t X. t \<in> X) (xs # ts) (X # Xs)" using xs ts(1) by simp
  moreover have "ms \<in> merges (map (\<lambda>t. {t}) (xs # ts))" using ms ts(2) by auto
  ultimately show ?case by blast
qed

lemma merges_single_set:
  "ms \<in> merges (map (\<lambda>t. {t}) ts) \<Longrightarrow> set ms = set (concat ts)"
proof (induction ts arbitrary: ms)
  case Nil
  then show ?case by simp
next
  case (Cons t ts)
  then obtain ys where ys: "ys \<in> merges (map (\<lambda>t. {t}) ts)" and ms: "ms \<in> shuffles t ys"
    by auto
  show ?case using set_shuffles[OF ms] Cons.IH[OF ys] by simp
qed

lemma merges_single_subseq:
  "ms \<in> merges (map (\<lambda>t. {t}) ts) \<Longrightarrow> t \<in> set ts \<Longrightarrow> subseq t ms"
proof (induction ts arbitrary: ms)
  case Nil
  then show ?case by simp
next
  case (Cons u ts)
  then obtain ys where ys: "ys \<in> merges (map (\<lambda>t. {t}) ts)" and ms: "ms \<in> shuffles u ys"
    by auto
  note s = subseq_shuffles[OF ms]
  show ?case
  proof (cases "t = u")
    case True
    then show ?thesis using s by simp
  next
    case False
    with Cons.prems have "t \<in> set ts" by simp
    then have "subseq t ys" using Cons.IH[OF ys] by simp
    then show ?thesis using s subseq_order.order_trans by blast
  qed
qed

lemma merges_single_distinct:
  "ms \<in> merges (map (\<lambda>t. {t}) ts) \<Longrightarrow> distinct (concat ts) \<Longrightarrow> distinct ms"
proof (induction ts arbitrary: ms)
  case Nil
  then show ?case by simp
next
  case (Cons u ts)
  then obtain ys where ys: "ys \<in> merges (map (\<lambda>t. {t}) ts)" and ms: "ms \<in> shuffles u ys"
    by auto
  have d: "distinct u" "distinct (concat ts)" "set u \<inter> set (concat ts) = {}"
    using Cons.prems(2) by auto
  have "distinct ys" using Cons.IH[OF ys d(2)] .
  moreover have "set u \<inter> set ys = {}" using d(3) merges_single_set[OF ys] by simp
  ultimately show ?case using distinct_disjoint_shuffles[OF d(1) _ _ ms] by simp
qed

lemma destroy_traces_fresh:
  assumes "dp = None" and "tr \<in> destroy_traces (Actor i n st dp h m cs)"
  obtains ts ms where "list_all2 (\<lambda>t c. t \<in> destroy_traces c) ts cs"
    and "ms \<in> merges (map (\<lambda>t. {t}) ts)"
    and "tr = [SetState i ''destroying''] @ ms @ [Destroy0 i, Destroy0Settled i h] @
              (if h = Resolves then [SetState i ''destroyed'', Emit i ''destroyed''] else [])"
proof -
  from assms obtain ms where ms: "ms \<in> merges (map destroy_traces cs)"
    and tr: "tr = [SetState i ''destroying''] @ ms @ [Destroy0 i, Destroy0Settled i h] @
              (if h = Resolves then [SetState i ''destroyed'', Emit i ''destroyed''] else [])"
    by auto
  from merges_strands[OF ms] obtain ts where
    ts: "list_all2 (\<lambda>t X. t \<in> X) ts (map destroy_traces cs)" "ms \<in> merges (map (\<lambda>t. {t}) ts)"
    by blast
  have "list_all2 (\<lambda>t c. t \<in> destroy_traces c) ts cs"
    using ts(1) by (simp add: list_all2_map2)
  then show ?thesis using that ts(2) tr by blast
qed

subsection \<open>The runs of a destruction\<close>

lemma fresh_Actor:
  "fresh (Actor i n st dp h m cs) \<longleftrightarrow> dp = None \<and> (\<forall>c\<in>set cs. fresh c)"
  by (auto simp: fresh_def list_all_iff)

lemma ids_Actor: "ids (Actor i n st dp h m cs) = i # concat (map ids cs)"
  by (simp add: ids_def map_concat comp_def cong: map_cong)

lemma list_all2_pick:
  "list_all2 P ts cs \<Longrightarrow> c \<in> set cs \<Longrightarrow> \<exists>t\<in>set ts. P t c"
  by (induction rule: list_all2_induct) auto

lemma list_all2_sets:
  "list_all2 (\<lambda>t c. set t = E c) ts cs \<Longrightarrow> set (concat ts) = (\<Union>c\<in>set cs. E c)"
  by (induction rule: list_all2_induct) auto

lemma trace_events:
  "fresh a \<Longrightarrow> tr \<in> destroy_traces a \<Longrightarrow> set tr = (\<Union>b\<in>set (subtrees a). set (chain_events b))"
proof (induction a arbitrary: tr)
  case (Actor i n st dp h m cs)
  from Actor.prems(1) have dp: "dp = None" and fr: "\<forall>c\<in>set cs. fresh c"
    by (simp_all add: fresh_Actor)
  from destroy_traces_fresh[OF dp Actor.prems(2)] obtain ts ms where
    ts: "list_all2 (\<lambda>t c. t \<in> destroy_traces c) ts cs"
    and ms: "ms \<in> merges (map (\<lambda>t. {t}) ts)"
    and tr: "tr = [SetState i ''destroying''] @ ms @ [Destroy0 i, Destroy0Settled i h] @
              (if h = Resolves then [SetState i ''destroyed'', Emit i ''destroyed''] else [])"
    by blast
  have "list_all2 (\<lambda>t c. set t = (\<Union>b\<in>set (subtrees c). set (chain_events b))) ts cs"
    using ts
  proof (rule list.rel_mono_strong)
    fix t c assume "t \<in> set ts" "c \<in> set cs" "t \<in> destroy_traces c"
    then show "set t = (\<Union>b\<in>set (subtrees c). set (chain_events b))"
      using Actor.IH fr by blast
  qed
  then have "set (concat ts) = (\<Union>c\<in>set cs. \<Union>b\<in>set (subtrees c). set (chain_events b))"
    by (rule list_all2_sets)
  then have "set ms = (\<Union>c\<in>set cs. \<Union>b\<in>set (subtrees c). set (chain_events b))"
    using merges_single_set[OF ms] by simp
  then show ?case unfolding tr by (auto simp: chain_events_def)
qed

lemma chain_events_actor: "e \<in> set (chain_events b) \<Longrightarrow> event_actor e = getId b"
  by (auto simp: chain_events_def split: if_splits)

lemma trace_event_actors:
  "fresh a \<Longrightarrow> tr \<in> destroy_traces a \<Longrightarrow> event_actor ` set tr \<subseteq> set (ids a)"
  by (auto simp: trace_events ids_def dest: chain_events_actor)

lemma list_all2_distinct_concat:
  "list_all2 (\<lambda>t c. distinct t \<and> f ` set t \<subseteq> set (g c)) ts cs \<Longrightarrow>
   distinct (concat (map g cs)) \<Longrightarrow> distinct (concat ts)"
proof (induction rule: list_all2_induct)
  case Nil
  then show ?case by simp
next
  case (Cons t ts c cs)
  have "set t \<inter> set (concat ts) = {}"
  proof (rule ccontr)
    assume "set t \<inter> set (concat ts) \<noteq> {}"
    then obtain e u where e: "e \<in> set t" "u \<in> set ts" "e \<in> set u" by auto
    from Cons.hyps(2) e(2) obtain c' where c': "c' \<in> set cs" "f ` set u \<subseteq> set (g c')"
      by (induction rule: list_all2_induct) auto
    have "f e \<in> set (g c)" using Cons.hyps(1) e(1) by auto
    moreover have "f e \<in> set (g c')" using c'(2) e(3) by auto
    ultimately show False using Cons.prems c'(1) by auto
  qed
  then show ?case using Cons by simp
qed

lemma trace_distinct:
  "fresh a \<Longrightarrow> distinct (ids a) \<Longrightarrow> tr \<in> destroy_traces a \<Longrightarrow> distinct tr"
proof (induction a arbitrary: tr)
  case (Actor i n st dp h m cs)
  from Actor.prems(1) have dp: "dp = None" and fr: "\<forall>c\<in>set cs. fresh c"
    by (simp_all add: fresh_Actor)
  from Actor.prems(2) have i: "i \<notin> set (concat (map ids cs))"
    and dc: "distinct (concat (map ids cs))"
    by (simp_all add: ids_Actor)
  have dcs: "\<forall>c\<in>set cs. distinct (ids c)"
    using dc by (simp add: distinct_concat_iff)
  from destroy_traces_fresh[OF dp Actor.prems(3)] obtain ts ms where
    ts: "list_all2 (\<lambda>t c. t \<in> destroy_traces c) ts cs"
    and ms: "ms \<in> merges (map (\<lambda>t. {t}) ts)"
    and tr: "tr = [SetState i ''destroying''] @ ms @ [Destroy0 i, Destroy0Settled i h] @
              (if h = Resolves then [SetState i ''destroyed'', Emit i ''destroyed''] else [])"
    by blast
  have "list_all2 (\<lambda>t c. distinct t \<and> event_actor ` set t \<subseteq> set (ids c)) ts cs"
    using ts
  proof (rule list.rel_mono_strong)
    fix t c assume "t \<in> set ts" "c \<in> set cs" "t \<in> destroy_traces c"
    then show "distinct t \<and> event_actor ` set t \<subseteq> set (ids c)"
      using Actor.IH fr dcs trace_event_actors by blast
  qed
  then have "distinct (concat ts)" and sub: "event_actor ` set (concat ts) \<subseteq> set (concat (map ids cs))"
    using dc by (rule list_all2_distinct_concat, induction rule: list_all2_induct) auto
  then have dms: "distinct ms" using merges_single_distinct[OF ms] by simp
  have "event_actor ` set ms \<subseteq> set (concat (map ids cs))"
    using sub merges_single_set[OF ms] by simp
  then have "\<forall>e\<in>set ms. event_actor e \<noteq> i" using i by auto
  then have notin: "SetState i ''destroying'' \<notin> set ms" "Destroy0 i \<notin> set ms"
    "Destroy0Settled i h \<notin> set ms" "SetState i ''destroyed'' \<notin> set ms"
    "Emit i ''destroyed'' \<notin> set ms"
    by force+
  show ?case unfolding tr using dms notin by auto
qed

lemma trace_subtree:
  "fresh a \<Longrightarrow> tr \<in> destroy_traces a \<Longrightarrow> b \<in> set (subtrees a) \<Longrightarrow>
   \<exists>tb\<in>destroy_traces b. subseq tb tr"
proof (induction a arbitrary: tr)
  case (Actor i n st dp h m cs)
  from Actor.prems(1) have dp: "dp = None" and fr: "\<forall>c\<in>set cs. fresh c"
    by (simp_all add: fresh_Actor)
  from destroy_traces_fresh[OF dp Actor.prems(2)] obtain ts ms where
    ts: "list_all2 (\<lambda>t c. t \<in> destroy_traces c) ts cs"
    and ms: "ms \<in> merges (map (\<lambda>t. {t}) ts)"
    and tr: "tr = [SetState i ''destroying''] @ ms @ [Destroy0 i, Destroy0Settled i h] @
              (if h = Resolves then [SetState i ''destroyed'', Emit i ''destroyed''] else [])"
    by blast
  show ?case
  proof (cases "b = Actor i n st dp h m cs")
    case True
    then show ?thesis using Actor.prems(2) by auto
  next
    case False
    with Actor.prems(3) obtain c where c: "c \<in> set cs" "b \<in> set (subtrees c)" by auto
    from list_all2_pick[OF ts c(1)] obtain t where t: "t \<in> set ts" "t \<in> destroy_traces c"
      by blast
    from Actor.IH[OF c(1) _ t(2) c(2)] fr c(1) obtain tb where
      tb: "tb \<in> destroy_traces b" "subseq tb t" by blast
    have "subseq t ms" using merges_single_subseq[OF ms t(1)] .
    moreover have "subseq ms tr" unfolding tr
      by (intro subseq_drop_many subseq_rev_drop_many) simp
    ultimately have "subseq tb tr" using tb(2) subseq_order.order_trans by blast
    then show ?thesis using tb(1) by blast
  qed
qed

lemma subtrees_trans:
  "b \<in> set (subtrees a) \<Longrightarrow> d \<in> set (subtrees b) \<Longrightarrow> d \<in> set (subtrees a)"
proof (induction a)
  case (Actor i n st dp h m cs)
  show ?case
  proof (cases "b = Actor i n st dp h m cs")
    case True
    then show ?thesis using Actor.prems by simp
  next
    case False
    with Actor.prems(1) obtain c where c: "c \<in> set cs" "b \<in> set (subtrees c)" by auto
    then have "d \<in> set (subtrees c)" using Actor.IH Actor.prems(2) by blast
    then show ?thesis using c(1) by auto
  qed
qed

lemma descendants_subtrees: "d \<in> set (descendants b) \<Longrightarrow> d \<in> set (subtrees b)"
  by (cases b) (auto simp: descendants_def)

lemma fresh_subtree: "fresh a \<Longrightarrow> b \<in> set (subtrees a) \<Longrightarrow> fresh b"
  using subtrees_trans by (auto simp: fresh_def list_all_iff)

lemma distinct_ids_subtree:
  "distinct (ids a) \<Longrightarrow> b \<in> set (subtrees a) \<Longrightarrow> distinct (ids b)"
proof (induction a)
  case (Actor i n st dp h m cs)
  show ?case
  proof (cases "b = Actor i n st dp h m cs")
    case True
    then show ?thesis using Actor.prems by simp
  next
    case False
    with Actor.prems(2) obtain c where c: "c \<in> set cs" "b \<in> set (subtrees c)" by auto
    have "distinct (ids c)" using Actor.prems(1) c(1)
      by (simp add: ids_Actor distinct_concat_iff)
    then show ?thesis using Actor.IH c by blast
  qed
qed

lemma descendant_id:
  "distinct (ids b) \<Longrightarrow> d \<in> set (descendants b) \<Longrightarrow> getId d \<noteq> getId b"
proof (cases b)
  case (Actor i n st dp h m cs)
  assume d: "distinct (ids b)" and m: "d \<in> set (descendants b)"
  from m Actor obtain c where c: "c \<in> set cs" "d \<in> set (subtrees c)"
    by (auto simp: descendants_def)
  then have "getId d \<in> set (concat (map ids cs))" by (auto simp: ids_def)
  then show ?thesis using d Actor by (auto simp: ids_Actor)
qed

lemma same_id_same_actor:
  "distinct (ids a) \<Longrightarrow> b \<in> set (subtrees a) \<Longrightarrow> d \<in> set (subtrees a) \<Longrightarrow>
   getId d = getId b \<Longrightarrow> d = b"
  unfolding ids_def by (metis distinct_map inj_on_def)

lemma chain_events_mem:
  "Destroy0Settled (getId d) (destroy0 d) \<in> set (chain_events d)"
  by (simp add: chain_events_def)

lemma merges_oneI: "t \<in> X \<Longrightarrow> t \<in> merges [X]"
  by simp

lemma merges_ConsI:
  "xs \<in> X \<Longrightarrow> ys \<in> merges Xs \<Longrightarrow> ms \<in> shuffles xs ys \<Longrightarrow> ms \<in> merges (X # Xs)"
  by (auto simp del: shuffles.simps)

lemma leaf_traces:
  "destroy_traces (Actor i n st None h m []) =
     {[SetState i ''destroying'', Destroy0 i, Destroy0Settled i h] @
      (if h = Resolves then [SetState i ''destroyed'', Emit i ''destroyed''] else [])}"
  by simp

lemma destroy_tracesI:
  assumes "ms \<in> merges (map destroy_traces cs)"
  shows "[SetState i ''destroying''] @ ms @ [Destroy0 i, Destroy0Settled i h] @
     (if h = Resolves then [SetState i ''destroyed'', Emit i ''destroyed''] else [])
   \<in> destroy_traces (Actor i n st None h m cs)"
proof -
  have "destroy_traces (Actor i n st None h m cs) =
      (\<lambda>children. [SetState i ''destroying''] @ children @
                        [Destroy0 i, Destroy0Settled i h] @
                        (if h = Resolves then [SetState i ''destroyed'', Emit i ''destroyed'']
                         else [])) ` merges (map destroy_traces cs)"
    by (subst destroy_traces.simps) simp
  then show ?thesis using assms by blast
qed

lemma only_child_traces:
  "t \<in> destroy_traces c \<Longrightarrow>
   [SetState i ''destroying''] @ t @ [Destroy0 i, Destroy0Settled i h] @
     (if h = Resolves then [SetState i ''destroyed'', Emit i ''destroyed''] else [])
   \<in> destroy_traces (Actor i n st None h m [c])"
  by (rule destroy_tracesI) simp

lemma two_children_traces:
  assumes "ms \<in> shuffles t1 t2" and "t1 \<in> destroy_traces c1" and "t2 \<in> destroy_traces c2"
  shows "[SetState i ''destroying''] @ ms @ [Destroy0 i, Destroy0Settled i h] @
     (if h = Resolves then [SetState i ''destroyed'', Emit i ''destroyed''] else [])
   \<in> destroy_traces (Actor i n st None h m [c1, c2])"
proof (rule destroy_tracesI)
  have "ms \<in> merges [destroy_traces c1, destroy_traces c2]"
    using assms(2) merges_oneI[OF assms(3)] assms(1) by (rule merges_ConsI)
  then show "ms \<in> merges (map destroy_traces [c1, c2])" by (simp only: list.map)
qed

text \<open>
  Claim C2. Destruction is post-order. Take a tree of actors with distinct ids on none
  of which \<open>destroy()\<close> has been called, and any run of \<open>destroy()\<close> on its root. For
  every actor \<open>b\<close> of the tree: the destroy hook of every transitive descendant of \<open>b\<close>
  has settled before the destroy hook \<open>destroy0\<close> of \<open>b\<close> is invoked; the state of \<open>b\<close>
  becomes \<open>destroyed\<close> only after its own hook has resolved, and the \<open>destroyed\<close> event
  of \<open>b\<close> is emitted after that state change; when the hook of \<open>b\<close> rejects, \<open>b\<close> never
  becomes \<open>destroyed\<close>. The \<open>destroyed\<close> event of the root is the last event of the run,
  and no event happens twice.
\<close>

theorem destroy_post_order:
  assumes "fresh a" and "distinct (ids a)" and "tr \<in> destroy_traces a"
    and "b \<in> set (subtrees a)"
  shows "(\<forall>d\<in>set (descendants b).
            before (Destroy0Settled (getId d) (destroy0 d)) (Destroy0 (getId b)) tr)
       \<and> before (Destroy0 (getId b)) (Destroy0Settled (getId b) (destroy0 b)) tr
       \<and> (destroy0 b = Resolves \<longrightarrow>
            before (Destroy0Settled (getId b) Resolves) (SetState (getId b) ''destroyed'') tr
          \<and> before (SetState (getId b) ''destroyed'') (Emit (getId b) ''destroyed'') tr)
       \<and> (destroy0 b = Rejects \<longrightarrow>
            SetState (getId b) ''destroyed'' \<notin> set tr \<and> Emit (getId b) ''destroyed'' \<notin> set tr)
       \<and> (destroy0 a = Resolves \<longrightarrow> last tr = Emit (getId a) ''destroyed'')
       \<and> distinct tr"
proof -
  obtain i n st dp h m cs where b: "b = Actor i n st dp h m cs" by (cases b) blast
  have frb: "fresh b" using assms(1,4) by (rule fresh_subtree)
  have dib: "distinct (ids b)" using assms(2,4) by (rule distinct_ids_subtree)
  from trace_subtree[OF assms(1,3,4)] obtain tb where
    tb: "tb \<in> destroy_traces b" "subseq tb tr" by blast
  have dtb: "distinct tb" using frb dib tb(1) by (rule trace_distinct)
  have dp: "dp = None" using frb b by (simp add: fresh_Actor)
  from destroy_traces_fresh[OF dp tb(1)[unfolded b]] obtain ts ms where
    tbeq: "tb = [SetState i ''destroying''] @ ms @ [Destroy0 i, Destroy0Settled i h] @
              (if h = Resolves then [SetState i ''destroyed'', Emit i ''destroyed''] else [])"
    by blast
  have 1: "\<forall>d\<in>set (descendants b).
            before (Destroy0Settled (getId d) (destroy0 d)) (Destroy0 (getId b)) tr"
  proof
    fix d assume d: "d \<in> set (descendants b)"
    let ?e = "Destroy0Settled (getId d) (destroy0 d)"
    have "?e \<in> set tb"
      using trace_events[OF frb tb(1)] descendants_subtrees[OF d] chain_events_mem by blast
    moreover have "getId d \<noteq> i" using descendant_id[OF dib d] b by simp
    ultimately have "?e \<in> set ([SetState i ''destroying''] @ ms)"
      unfolding tbeq by (auto split: if_splits)
    then have "before ?e (Destroy0 i) (([SetState i ''destroying''] @ ms) @ Destroy0 i #
         (Destroy0Settled i h #
              (if h = Resolves then [SetState i ''destroyed'', Emit i ''destroyed''] else [])))"
      by (rule before_appendI)
    then have "before ?e (Destroy0 (getId b)) tb" unfolding tbeq b by simp
    then show "before ?e (Destroy0 (getId b)) tr" using tb(2) by (rule before_subseq[rotated])
  qed
  have "before (Destroy0 i) (Destroy0Settled i h) (([SetState i ''destroying''] @ ms) @ Destroy0 i #
         (Destroy0Settled i h #
              (if h = Resolves then [SetState i ''destroyed'', Emit i ''destroyed''] else [])))"
    by (rule before_consI) simp
  then have "before (Destroy0 (getId b)) (Destroy0Settled (getId b) (destroy0 b)) tb"
    unfolding tbeq b by simp
  then have 2: "before (Destroy0 (getId b)) (Destroy0Settled (getId b) (destroy0 b)) tr"
    using tb(2) by (rule before_subseq[rotated])
  have 3: "destroy0 b = Resolves \<longrightarrow>
            before (Destroy0Settled (getId b) Resolves) (SetState (getId b) ''destroyed'') tr
          \<and> before (SetState (getId b) ''destroyed'') (Emit (getId b) ''destroyed'') tr"
  proof
    assume r: "destroy0 b = Resolves"
    then have h: "h = Resolves" using b by simp
    have "before (Destroy0Settled i Resolves) (SetState i ''destroyed'')
            (([SetState i ''destroying''] @ ms @ [Destroy0 i]) @ Destroy0Settled i Resolves #
               [SetState i ''destroyed'', Emit i ''destroyed''])"
      by (rule before_consI) simp
    then have x: "before (Destroy0Settled (getId b) Resolves) (SetState (getId b) ''destroyed'') tb"
      unfolding tbeq b using h by simp
    have "before (SetState i ''destroyed'') (Emit i ''destroyed'')
            (([SetState i ''destroying''] @ ms @ [Destroy0 i, Destroy0Settled i Resolves]) @
               SetState i ''destroyed'' # [Emit i ''destroyed''])"
      by (rule before_consI) simp
    then have y: "before (SetState (getId b) ''destroyed'') (Emit (getId b) ''destroyed'') tb"
      unfolding tbeq b using h by simp
    show "before (Destroy0Settled (getId b) Resolves) (SetState (getId b) ''destroyed'') tr
          \<and> before (SetState (getId b) ''destroyed'') (Emit (getId b) ''destroyed'') tr"
      using before_subseq[OF tb(2) x] before_subseq[OF tb(2) y] by simp
  qed
  have 4: "destroy0 b = Rejects \<longrightarrow>
            SetState (getId b) ''destroyed'' \<notin> set tr \<and> Emit (getId b) ''destroyed'' \<notin> set tr"
  proof
    assume r: "destroy0 b = Rejects"
    { fix e assume e: "e = SetState (getId b) ''destroyed'' \<or> e = Emit (getId b) ''destroyed''"
        and "e \<in> set tr"
      then obtain d where d: "d \<in> set (subtrees a)" "e \<in> set (chain_events d)"
        using trace_events[OF assms(1,3)] by blast
      have "getId d = getId b" using chain_events_actor[OF d(2)] e by auto
      then have "d = b" using same_id_same_actor[OF assms(2,4) d(1)] by simp
      then have False using d(2) e r by (auto simp: chain_events_def) }
    then show "SetState (getId b) ''destroyed'' \<notin> set tr \<and> Emit (getId b) ''destroyed'' \<notin> set tr"
      by blast
  qed
  have 5: "destroy0 a = Resolves \<longrightarrow> last tr = Emit (getId a) ''destroyed''"
  proof
    assume r: "destroy0 a = Resolves"
    obtain i' n' st' dp' h' m' cs' where a: "a = Actor i' n' st' dp' h' m' cs'"
      by (cases a) blast
    have "dp' = None" using assms(1) a by (simp add: fresh_Actor)
    from destroy_traces_fresh[OF this assms(3)[unfolded a]] obtain ts' ms' where
      "tr = [SetState i' ''destroying''] @ ms' @ [Destroy0 i', Destroy0Settled i' h'] @
           (if h' = Resolves then [SetState i' ''destroyed'', Emit i' ''destroyed''] else [])"
      by blast
    then show "last tr = Emit (getId a) ''destroyed''" using r a by simp
  qed
  have 6: "distinct tr" using assms(1,2,3) by (rule trace_distinct)
  from 1 2 3 4 5 6 show ?thesis by (intro conjI)
qed

text \<open>
  The witness: a root, its child whose destroy hook rejects, and a grandchild (the
  shape of the test "should destroy children before destroying self"), with the one
  run this tree has.
\<close>

theorem destroy_post_order_witness:
  "[SetState 0 ''destroying'', SetState 1 ''destroying'', SetState 2 ''destroying'',
    Destroy0 2, Destroy0Settled 2 Resolves, SetState 2 ''destroyed'', Emit 2 ''destroyed'',
    Destroy0 1, Destroy0Settled 1 Rejects,
    Destroy0 0, Destroy0Settled 0 Resolves, SetState 0 ''destroyed'', Emit 0 ''destroyed'']
     \<in> destroy_traces
         (Actor 0 ''root'' ''ready'' None Resolves []
            [Actor 1 ''child'' ''ready'' None Rejects []
               [Actor 2 ''grandchild'' ''ready'' None Resolves [] []]])
   \<and> before (Destroy0Settled 2 Resolves) (Destroy0 1)
       [SetState 0 ''destroying'', SetState 1 ''destroying'', SetState 2 ''destroying'',
        Destroy0 2, Destroy0Settled 2 Resolves, SetState 2 ''destroyed'', Emit 2 ''destroyed'',
        Destroy0 1, Destroy0Settled 1 Rejects,
        Destroy0 0, Destroy0Settled 0 Resolves, SetState 0 ''destroyed'', Emit 0 ''destroyed'']
   \<and> before (Destroy0Settled 1 Rejects) (Destroy0 0)
       [SetState 0 ''destroying'', SetState 1 ''destroying'', SetState 2 ''destroying'',
        Destroy0 2, Destroy0Settled 2 Resolves, SetState 2 ''destroyed'', Emit 2 ''destroyed'',
        Destroy0 1, Destroy0Settled 1 Rejects,
        Destroy0 0, Destroy0Settled 0 Resolves, SetState 0 ''destroyed'', Emit 0 ''destroyed'']
   \<and> before (Destroy0Settled 2 Resolves) (Destroy0 0)
       [SetState 0 ''destroying'', SetState 1 ''destroying'', SetState 2 ''destroying'',
        Destroy0 2, Destroy0Settled 2 Resolves, SetState 2 ''destroyed'', Emit 2 ''destroyed'',
        Destroy0 1, Destroy0Settled 1 Rejects,
        Destroy0 0, Destroy0Settled 0 Resolves, SetState 0 ''destroyed'', Emit 0 ''destroyed'']
   \<and> before (Destroy0Settled 0 Resolves) (SetState 0 ''destroyed'')
       [SetState 0 ''destroying'', SetState 1 ''destroying'', SetState 2 ''destroying'',
        Destroy0 2, Destroy0Settled 2 Resolves, SetState 2 ''destroyed'', Emit 2 ''destroyed'',
        Destroy0 1, Destroy0Settled 1 Rejects,
        Destroy0 0, Destroy0Settled 0 Resolves, SetState 0 ''destroyed'', Emit 0 ''destroyed'']"
proof -
  let ?g = "Actor 2 ''grandchild'' ''ready'' None Resolves [] []"
  let ?c = "Actor 1 ''child'' ''ready'' None Rejects [] [?g]"
  let ?r = "Actor 0 ''root'' ''ready'' None Resolves [] [?c]"
  let ?tr = "[SetState 0 ''destroying'', SetState 1 ''destroying'', SetState 2 ''destroying'',
    Destroy0 2, Destroy0Settled 2 Resolves, SetState 2 ''destroyed'', Emit 2 ''destroyed'',
    Destroy0 1, Destroy0Settled 1 Rejects,
    Destroy0 0, Destroy0Settled 0 Resolves, SetState 0 ''destroyed'', Emit 0 ''destroyed'']"
  have f: "fresh ?r" by (simp add: fresh_def)
  have d: "distinct (ids ?r)" by (simp add: ids_def)
  have "[SetState 2 ''destroying'', Destroy0 2, Destroy0Settled 2 Resolves,
         SetState 2 ''destroyed'', Emit 2 ''destroyed''] \<in> destroy_traces ?g"
    by (simp add: leaf_traces del: destroy_traces.simps)
  from only_child_traces[OF this, of 1 Rejects "''child''" "''ready''" "[]"]
  have "[SetState 1 ''destroying'', SetState 2 ''destroying'',
         Destroy0 2, Destroy0Settled 2 Resolves, SetState 2 ''destroyed'', Emit 2 ''destroyed'',
         Destroy0 1, Destroy0Settled 1 Rejects] \<in> destroy_traces ?c"
    by (simp del: destroy_traces.simps)
  from only_child_traces[OF this, of 0 Resolves "''root''" "''ready''" "[]"]
  have t: "?tr \<in> destroy_traces ?r"
    by (simp del: destroy_traces.simps)
  have c: "?c \<in> set (subtrees ?r)" by simp
  have r: "?r \<in> set (subtrees ?r)" by simp
  show ?thesis
    using destroy_post_order[OF f d t c] destroy_post_order[OF f d t r] t
    by (simp add: descendants_def del: destroy_traces.simps before.simps)
qed

text \<open>
  Claim C8, as stated, fails. A parent with the children \<open>Child1\<close> (created first) and
  \<open>Child2\<close>: \<open>P.map\<close> goes through \<open>childPromises\<close> from index 0 and calls
  \<open>child.destroy()\<close> on \<open>Child1\<close> first; in the run below, every step of \<open>Child1\<close> comes
  before the same step of \<open>Child2\<close>, so the children are not destroyed in reverse
  insertion order.
\<close>

theorem not_reverse_insertion_order:
  "[SetState 0 ''destroying'', SetState 1 ''destroying'', SetState 2 ''destroying'',
       Destroy0 1, Destroy0Settled 1 Resolves, Destroy0 2, Destroy0Settled 2 Resolves,
       SetState 1 ''destroyed'', Emit 1 ''destroyed'', SetState 2 ''destroyed'', Emit 2 ''destroyed'',
       Destroy0 0, Destroy0Settled 0 Resolves, SetState 0 ''destroyed'', Emit 0 ''destroyed'']
     \<in> destroy_traces (Actor 0 ''parent'' ''ready'' None Resolves []
          [Actor 1 ''Child1'' ''ready'' None Resolves [] [],
           Actor 2 ''Child2'' ''ready'' None Resolves [] []])
   \<and> \<not> reverse_insertion_order (Actor 0 ''parent'' ''ready'' None Resolves []
          [Actor 1 ''Child1'' ''ready'' None Resolves [] [],
           Actor 2 ''Child2'' ''ready'' None Resolves [] []])
      [SetState 0 ''destroying'', SetState 1 ''destroying'', SetState 2 ''destroying'',
       Destroy0 1, Destroy0Settled 1 Resolves, Destroy0 2, Destroy0Settled 2 Resolves,
       SetState 1 ''destroyed'', Emit 1 ''destroyed'', SetState 2 ''destroyed'', Emit 2 ''destroyed'',
       Destroy0 0, Destroy0Settled 0 Resolves, SetState 0 ''destroyed'', Emit 0 ''destroyed'']"
proof -
  let ?c1 = "Actor 1 ''Child1'' ''ready'' None Resolves [] []"
  let ?c2 = "Actor 2 ''Child2'' ''ready'' None Resolves [] []"
  let ?a = "Actor 0 ''parent'' ''ready'' None Resolves [] [?c1, ?c2]"
  let ?tr = "[SetState 0 ''destroying'', SetState 1 ''destroying'', SetState 2 ''destroying'',
       Destroy0 1, Destroy0Settled 1 Resolves, Destroy0 2, Destroy0Settled 2 Resolves,
       SetState 1 ''destroyed'', Emit 1 ''destroyed'', SetState 2 ''destroyed'', Emit 2 ''destroyed'',
       Destroy0 0, Destroy0Settled 0 Resolves, SetState 0 ''destroyed'', Emit 0 ''destroyed'']"
  have "[SetState 1 ''destroying'', SetState 2 ''destroying'',
       Destroy0 1, Destroy0Settled 1 Resolves, Destroy0 2, Destroy0Settled 2 Resolves,
       SetState 1 ''destroyed'', Emit 1 ''destroyed'', SetState 2 ''destroyed'', Emit 2 ''destroyed'']
       \<in> shuffles [SetState 1 ''destroying'', Destroy0 1, Destroy0Settled 1 Resolves,
                    SetState 1 ''destroyed'', Emit 1 ''destroyed'']
                   [SetState 2 ''destroying'', Destroy0 2, Destroy0Settled 2 Resolves,
                    SetState 2 ''destroyed'', Emit 2 ''destroyed'']"
    by (simp del: shuffles.simps add: Cons_in_shuffles_iff)
  from two_children_traces[OF this, of ?c1 ?c2 0 Resolves "''parent''" "''ready''" "[]"]
  have t: "?tr \<in> destroy_traces ?a"
    by (simp add: leaf_traces del: destroy_traces.simps)
  have "\<not> reverse_insertion_order ?a ?tr"
  proof
    assume "reverse_insertion_order ?a ?tr"
    then have "0 < (1::nat) \<and> 1 < length (childPromises ?a) \<longrightarrow>
        before (Destroy0 (getId (childPromises ?a ! 1)))
               (Destroy0 (getId (childPromises ?a ! 0))) ?tr"
      unfolding reverse_insertion_order_def by blast
    then show False by simp
  qed
  with t show ?thesis by (rule conjI)
qed

text \<open>
  Claim C8, amended. For every actor (with distinct ids in its tree, and \<open>destroy()\<close>
  not yet called in it), \<open>destroy()\<close> destroys all the children, their destructions
  running concurrently in no fixed order, and every event of the destruction of every
  child and of the actors below it has happened before the destroy hook \<open>destroy0\<close> of
  the parent, which releases the parent's resources, is invoked.
\<close>

theorem children_before_parent_hook:
  assumes "fresh a" and "distinct (ids a)" and "tr \<in> destroy_traces a"
    and "c \<in> set (childPromises a)" and "d \<in> set (subtrees c)" and "e \<in> set (chain_events d)"
  shows "before e (Destroy0 (getId a)) tr"
proof -
  obtain i n st dp h m cs where a: "a = Actor i n st dp h m cs" by (cases a) blast
  have dp: "dp = None" using assms(1) a by (simp add: fresh_Actor)
  from destroy_traces_fresh[OF dp assms(3)[unfolded a]] obtain ts ms where
    tr: "tr = [SetState i ''destroying''] @ ms @ [Destroy0 i, Destroy0Settled i h] @
              (if h = Resolves then [SetState i ''destroyed'', Emit i ''destroyed''] else [])"
    by blast
  have dd: "d \<in> set (descendants a)" using assms(4,5) by (auto simp: descendants_def)
  then have "d \<in> set (subtrees a)" by (rule descendants_subtrees)
  then have "e \<in> set tr" using trace_events[OF assms(1,3)] assms(6) by blast
  moreover have "event_actor e \<noteq> i"
    using descendant_id[OF assms(2) dd] chain_events_actor[OF assms(6)] a by simp
  ultimately have "e \<in> set ([SetState i ''destroying''] @ ms)"
    unfolding tr by (auto split: if_splits)
  then have "before e (Destroy0 i) (([SetState i ''destroying''] @ ms) @ Destroy0 i #
         (Destroy0Settled i h #
              (if h = Resolves then [SetState i ''destroyed'', Emit i ''destroyed''] else [])))"
    by (rule before_appendI)
  then show ?thesis unfolding tr a by simp
qed

theorem children_before_parent_hook_witness:
  "before (Emit 1 ''destroyed'') (Destroy0 0)
      [SetState 0 ''destroying'', SetState 1 ''destroying'', SetState 2 ''destroying'',
       Destroy0 1, Destroy0Settled 1 Resolves, Destroy0 2, Destroy0Settled 2 Resolves,
       SetState 1 ''destroyed'', Emit 1 ''destroyed'', SetState 2 ''destroyed'', Emit 2 ''destroyed'',
       Destroy0 0, Destroy0Settled 0 Resolves, SetState 0 ''destroyed'', Emit 0 ''destroyed'']
   \<and> before (Emit 2 ''destroyed'') (Destroy0 0)
      [SetState 0 ''destroying'', SetState 1 ''destroying'', SetState 2 ''destroying'',
       Destroy0 1, Destroy0Settled 1 Resolves, Destroy0 2, Destroy0Settled 2 Resolves,
       SetState 1 ''destroyed'', Emit 1 ''destroyed'', SetState 2 ''destroyed'', Emit 2 ''destroyed'',
       Destroy0 0, Destroy0Settled 0 Resolves, SetState 0 ''destroyed'', Emit 0 ''destroyed'']"
proof -
  let ?c1 = "Actor 1 ''Child1'' ''ready'' None Resolves [] []"
  let ?c2 = "Actor 2 ''Child2'' ''ready'' None Resolves [] []"
  let ?a = "Actor 0 ''parent'' ''ready'' None Resolves [] [?c1, ?c2]"
  let ?tr = "[SetState 0 ''destroying'', SetState 1 ''destroying'', SetState 2 ''destroying'',
       Destroy0 1, Destroy0Settled 1 Resolves, Destroy0 2, Destroy0Settled 2 Resolves,
       SetState 1 ''destroyed'', Emit 1 ''destroyed'', SetState 2 ''destroyed'', Emit 2 ''destroyed'',
       Destroy0 0, Destroy0Settled 0 Resolves, SetState 0 ''destroyed'', Emit 0 ''destroyed'']"
  have f: "fresh ?a" by (simp add: fresh_def)
  have d: "distinct (ids ?a)" by (simp add: ids_def)
  have "[SetState 1 ''destroying'', SetState 2 ''destroying'',
       Destroy0 1, Destroy0Settled 1 Resolves, Destroy0 2, Destroy0Settled 2 Resolves,
       SetState 1 ''destroyed'', Emit 1 ''destroyed'', SetState 2 ''destroyed'', Emit 2 ''destroyed'']
       \<in> shuffles [SetState 1 ''destroying'', Destroy0 1, Destroy0Settled 1 Resolves,
                    SetState 1 ''destroyed'', Emit 1 ''destroyed'']
                   [SetState 2 ''destroying'', Destroy0 2, Destroy0Settled 2 Resolves,
                    SetState 2 ''destroyed'', Emit 2 ''destroyed'']"
    by (simp del: shuffles.simps add: Cons_in_shuffles_iff)
  from two_children_traces[OF this, of ?c1 ?c2 0 Resolves "''parent''" "''ready''" "[]"]
  have t: "?tr \<in> destroy_traces ?a"
    by (simp add: leaf_traces del: destroy_traces.simps)
  have c1: "?c1 \<in> set (childPromises ?a)" and c2: "?c2 \<in> set (childPromises ?a)" by simp_all
  have s1: "?c1 \<in> set (subtrees ?c1)" and s2: "?c2 \<in> set (subtrees ?c2)" by simp_all
  have e1: "Emit 1 ''destroyed'' \<in> set (chain_events ?c1)"
    and e2: "Emit 2 ''destroyed'' \<in> set (chain_events ?c2)" by (simp_all add: chain_events_def)
  show ?thesis
    using children_before_parent_hook[OF f d t c1 s1 e1]
          children_before_parent_hook[OF f d t c2 s2 e2]
    by (simp del: destroy_traces.simps before.simps)
qed

lemma destroy_stores_promise:
  "destroy a next = (p, a', next') \<Longrightarrow> destroyPromise a' = Some p"
  by (cases a) (auto split: option.splits)

lemma destroy_again:
  "destroyPromise a = Some p \<Longrightarrow> destroy a next = (p, a, next) \<and> destroy_traces a = {[]}"
  by (cases a) auto

lemma destroy_calls_again:
  "destroyPromise a = Some p \<Longrightarrow> destroy_calls k a next = (replicate k (p, {[]}), a, next)"
  by (induction k) (simp_all add: destroy_again)

text \<open>
  Claim C10. \<open>destroy()\<close> is idempotent. Whatever the first call returns, each of any
  number of further calls returns the same promise, changes nothing in the actor and
  sets nothing going: all that happens is what the first call has set going. There
  (for a tree with distinct ids in which \<open>destroy()\<close> has not been called before) no
  event happens twice, so the destruction of each child, the \<open>destroy0\<close> hook, the
  change to the state \<open>destroyed\<close> and the \<open>destroyed\<close> event happen at most once.
\<close>

theorem destroy_idempotent:
  assumes "destroy a next = (p, a', next')"
  shows "destroy_calls (Suc k) a next = ((p, destroy_traces a) # replicate k (p, {[]}), a', next')
       \<and> destroy a' next' = (p, a', next')
       \<and> destroy_traces a' = {[]}
       \<and> (fresh a \<and> distinct (ids a) \<longrightarrow> (\<forall>tr\<in>destroy_traces a. distinct tr))"
  using assms destroy_calls_again[OF destroy_stores_promise[OF assms]]
    destroy_again[OF destroy_stores_promise[OF assms]] trace_distinct
  by auto

theorem destroy_idempotent_witness:
  "destroy_calls 3 (Actor 5 ''a'' ''ready'' None Resolves [] []) 10 =
     ([(10, {[SetState 5 ''destroying'', Destroy0 5, Destroy0Settled 5 Resolves,
              SetState 5 ''destroyed'', Emit 5 ''destroyed'']}), (10, {[]}), (10, {[]})],
      Actor 5 ''a'' ''destroying'' (Some 10) Resolves [] [], 11)"
  using destroy_idempotent[of "Actor 5 ''a'' ''ready'' None Resolves [] []" 10 10
      "Actor 5 ''a'' ''destroying'' (Some 10) Resolves [] []" 11 2]
  by (simp add: numeral_3_eq_3)

section \<open>Metrics: results\<close>

lemma foldl_update_keys:
  "fst ` set (foldl (\<lambda>memo (k, v). AList.update k (f v) memo) m kvs) = fst ` set m \<union> fst ` set kvs"
proof (induction kvs arbitrary: m)
  case Nil
  then show ?case by simp
next
  case (Cons kv kvs)
  obtain k v where kv: "kv = (k, v)" by (cases kv)
  show ?case unfolding kv by (auto simp add: Cons.IH dom_update)
qed

lemma foldl_update_map_of:
  "map_of (foldl (\<lambda>memo (k, v). AList.update k (f v) memo) m kvs)
     = map_of m ++ map_of (rev (map (\<lambda>(k, v). (k, f v)) kvs))"
proof (induction kvs arbitrary: m)
  case Nil
  then show ?case by simp
next
  case (Cons kv kvs)
  obtain k v where kv: "kv = (k, v)" by (cases kv)
  have "map_of (foldl (\<lambda>memo (k, v). AList.update k (f v) memo) m (kv # kvs))
      = map_of (AList.update k (f v) m) ++ map_of (rev (map (\<lambda>(k, v). (k, f v)) kvs))"
    unfolding kv by (simp add: Cons.IH)
  also have "\<dots> = map_of m ++ ([k \<mapsto> f v] ++ map_of (rev (map (\<lambda>(k, v). (k, f v)) kvs)))"
    by (simp add: update_conv' map_add_upd_left[symmetric] del: map_add_upd_left)
  also have "\<dots> = map_of m ++ map_of (rev (map (\<lambda>(k, v). (k, f v)) (kv # kvs)))"
    unfolding kv by (simp add: map_of_append)
  finally show ?case .
qed

lemma map_of_rev_last_wins:
  "j < length kvs \<Longrightarrow> (\<forall>l. j < l \<and> l < length kvs \<longrightarrow> fst (kvs ! l) \<noteq> fst (kvs ! j)) \<Longrightarrow>
   map_of (rev kvs) (fst (kvs ! j)) = Some (snd (kvs ! j))"
proof (induction kvs rule: rev_induct)
  case Nil
  then show ?case by simp
next
  case (snoc x xs)
  show ?case
  proof (cases "j = length xs")
    case True
    then show ?thesis by (cases x) simp
  next
    case False
    with snoc.prems(1) have j: "j < length xs" by simp
    have "fst ((xs @ [x]) ! length xs) \<noteq> fst ((xs @ [x]) ! j)"
      using snoc.prems(2)[rule_format, of "length xs"] j by simp
    then have ne: "fst x \<noteq> fst (xs ! j)" using j by (simp add: nth_append)
    have "\<forall>l. j < l \<and> l < length xs \<longrightarrow> fst (xs ! l) \<noteq> fst (xs ! j)"
    proof (intro allI impI)
      fix l assume l: "j < l \<and> l < length xs"
      then have "fst ((xs @ [x]) ! l) \<noteq> fst ((xs @ [x]) ! j)"
        using snoc.prems(2)[rule_format, of l] by simp
      then show "fst (xs ! l) \<noteq> fst (xs ! j)" using l j by (simp add: nth_append)
    qed
    then have "map_of (rev xs) (fst (xs ! j)) = Some (snd (xs ! j))"
      using snoc.IH j by simp
    then show ?thesis using ne j by (cases x) (auto simp add: nth_append)
  qed
qed

lemma metrics_unfold:
  "fst (metrics stored a) =
     foldl (\<lambda>memo (name, childMetrics). AList.update name (Metrics childMetrics) memo)
       (metrics0 a) (map (\<lambda>child. (getName child, fst (metrics stored child))) (childPromises a))"
  by (cases a) (simp add: Let_def)

lemma metrics_keys:
  "fst ` set (fst (metrics stored a))
     = fst ` set (metrics0 a) \<union> getName ` set (childPromises a)"
  unfolding metrics_unfold[of stored a] foldl_update_keys by (simp add: image_image)

lemma metrics_map_of:
  "map_of (fst (metrics stored a)) = map_of (metrics0 a) ++
     map_of (rev (map (\<lambda>child. (getName child, Metrics (fst (metrics stored child))))
                   (childPromises a)))"
  unfolding metrics_unfold[of stored a] foldl_update_map_of by (simp add: comp_def)

text \<open>
  Claim C7, as stated, fails: the children do not each get a key that maps the child's
  name to that child's metrics. Two children of the same name (two actors of one
  behaviour class, or two unnamed actors, whose name is the empty string) share one
  key: the second assignment \<open>memo[child.getName()] = childMetrics\<close> replaces the
  first, and the metrics of the first child are not in the result.
\<close>

theorem metrics_name_clash:
  "\<not> (\<forall>c\<in>set (childPromises
          (Actor 0 ''Parent'' ''ready'' None Resolves [(''parentMetric'', Number 111)]
            [Actor 1 ''Worker'' ''ready'' None Resolves [(''childMetric'', Number 222)] [],
             Actor 2 ''Worker'' ''ready'' None Resolves [(''childMetric'', Number 333)] []])).
        map_of (fst (metrics (\<lambda>i. False)
          (Actor 0 ''Parent'' ''ready'' None Resolves [(''parentMetric'', Number 111)]
            [Actor 1 ''Worker'' ''ready'' None Resolves [(''childMetric'', Number 222)] [],
             Actor 2 ''Worker'' ''ready'' None Resolves [(''childMetric'', Number 333)] []])))
          (getName c) = Some (Metrics (fst (metrics (\<lambda>i. False) c))))"
  by (simp add: Let_def)

text \<open>
  Claim C7, amended. \<open>metrics()\<close> returns the object of the actor's own metrics hook
  into which the recursively computed metrics of each child in \<open>childPromises\<close> have
  been assigned under the child's name, in insertion order, a later assignment
  replacing an earlier entry of the same name. So the keys of the result are the
  keys of the hook's object and the names of the children; a key that is no child's
  name keeps the value it has in the hook's object; and a child whose name no later
  child bears is mapped to its own metrics. Whether the hook makes a new object or
  keeps one makes no difference to this.
\<close>

theorem metrics_merge:
  "fst ` set (fst (metrics stored a))
     = fst ` set (metrics0 a) \<union> getName ` set (childPromises a)
   \<and> (\<forall>k. k \<notin> getName ` set (childPromises a) \<longrightarrow>
          map_of (fst (metrics stored a)) k = map_of (metrics0 a) k)
   \<and> (\<forall>j. j < length (childPromises a)
            \<and> (\<forall>l. j < l \<and> l < length (childPromises a) \<longrightarrow>
                   getName (childPromises a ! l) \<noteq> getName (childPromises a ! j)) \<longrightarrow>
          map_of (fst (metrics stored a)) (getName (childPromises a ! j))
            = Some (Metrics (fst (metrics stored (childPromises a ! j)))))"
proof (intro conjI allI impI)
  show "fst ` set (fst (metrics stored a))
     = fst ` set (metrics0 a) \<union> getName ` set (childPromises a)"
    by (rule metrics_keys)
next
  fix k assume "k \<notin> getName ` set (childPromises a)"
  then have "map_of (rev (map (\<lambda>child. (getName child, Metrics (fst (metrics stored child))))
                   (childPromises a))) k = None"
    by (simp add: map_of_eq_None_iff image_image)
  then show "map_of (fst (metrics stored a)) k = map_of (metrics0 a) k"
    by (simp add: metrics_map_of map_add_def)
next
  fix j
  let ?kvs = "map (\<lambda>child. (getName child, Metrics (fst (metrics stored child))))
                (childPromises a)"
  assume h: "j < length (childPromises a)
            \<and> (\<forall>l. j < l \<and> l < length (childPromises a) \<longrightarrow>
                   getName (childPromises a ! l) \<noteq> getName (childPromises a ! j))"
  then have "j < length ?kvs" by simp
  moreover have "\<forall>l. j < l \<and> l < length ?kvs \<longrightarrow> fst (?kvs ! l) \<noteq> fst (?kvs ! j)"
    using h by simp
  ultimately have "map_of (rev ?kvs) (fst (?kvs ! j)) = Some (snd (?kvs ! j))"
    by (rule map_of_rev_last_wins)
  then have "map_of (rev ?kvs) (getName (childPromises a ! j))
      = Some (Metrics (fst (metrics stored (childPromises a ! j))))" using h by simp
  then show "map_of (fst (metrics stored a)) (getName (childPromises a ! j))
            = Some (Metrics (fst (metrics stored (childPromises a ! j))))"
    by (simp add: metrics_map_of map_add_def)
qed

text \<open>
  The witness is the scenario of the repository's tests: a parent with
  \<open>parentMetric\<close> and the children \<open>Child1\<close> and \<open>Child2\<close>.
\<close>

theorem metrics_merge_witness:
  "fst (metrics (\<lambda>i. False)
     (Actor 0 ''Parent'' ''ready'' None Resolves [(''parentMetric'', Number 111)]
      [Actor 1 ''Child1'' ''ready'' None Resolves [(''childMetric'', Number 222)] [],
       Actor 2 ''Child2'' ''ready'' None Resolves [(''childMetric'', Number 333)] []]))
   = [(''parentMetric'', Number 111),
      (''Child1'', Metrics [(''childMetric'', Number 222)]),
      (''Child2'', Metrics [(''childMetric'', Number 333)])]
   \<and> map_of (fst (metrics (\<lambda>i. False)
     (Actor 0 ''Parent'' ''ready'' None Resolves [(''parentMetric'', Number 111)]
      [Actor 1 ''Child1'' ''ready'' None Resolves [(''childMetric'', Number 222)] [],
       Actor 2 ''Child2'' ''ready'' None Resolves [(''childMetric'', Number 333)] []]))) ''Child2''
      = Some (Metrics [(''childMetric'', Number 333)])
   \<and> map_of (fst (metrics (\<lambda>i. False)
     (Actor 0 ''Parent'' ''ready'' None Resolves [(''parentMetric'', Number 111)]
      [Actor 1 ''Child1'' ''ready'' None Resolves [(''childMetric'', Number 222)] [],
       Actor 2 ''Child2'' ''ready'' None Resolves [(''childMetric'', Number 333)] []])))
        ''parentMetric''
      = Some (Number 111)"
  using metrics_merge[of "\<lambda>i. False"
     "Actor 0 ''Parent'' ''ready'' None Resolves [(''parentMetric'', Number 111)]
      [Actor 1 ''Child1'' ''ready'' None Resolves [(''childMetric'', Number 222)] [],
       Actor 2 ''Child2'' ''ready'' None Resolves [(''childMetric'', Number 333)] []]"]
  by (auto simp add: Let_def)

text \<open>
  The same parent after \<open>Child2\<close> has been destroyed and taken out of
  \<open>childPromises\<close>, asked for its metrics a second time. With a hook that makes a new
  object at each call (the hook of the test "should not collect metrics from
  destroyed actors") the key \<open>Child2\<close> is gone. With a hook that keeps its object,
  the first call has written \<open>Child1\<close> and \<open>Child2\<close> into that object, and the second
  call returns it with the key of the destroyed child still there.
\<close>

lemma metrics_after_child_destroyed:
  "fst (metrics (\<lambda>i. False) (child_destroyed (snd (metrics (\<lambda>i. False)
     (Actor 0 ''Parent'' ''ready'' None Resolves [(''parentMetric'', Number 111)]
      [Actor 1 ''Child1'' ''ready'' None Resolves [(''childMetric'', Number 222)] [],
       Actor 2 ''Child2'' ''ready'' None Resolves [(''childMetric'', Number 333)] []]))) 2))
   = [(''parentMetric'', Number 111),
      (''Child1'', Metrics [(''childMetric'', Number 222)])]"
  "fst (metrics (\<lambda>i. i = 0) (child_destroyed (snd (metrics (\<lambda>i. i = 0)
     (Actor 0 ''Parent'' ''ready'' None Resolves [(''parentMetric'', Number 111)]
      [Actor 1 ''Child1'' ''ready'' None Resolves [(''childMetric'', Number 222)] [],
       Actor 2 ''Child2'' ''ready'' None Resolves [(''childMetric'', Number 333)] []]))) 2))
   = [(''parentMetric'', Number 111),
      (''Child1'', Metrics [(''childMetric'', Number 222)]),
      (''Child2'', Metrics [(''childMetric'', Number 333)])]"
  by (simp_all add: Let_def child_destroyed_def)

section \<open>ForkedActor: results\<close>

subsection \<open>Correlation ids\<close>

lemma send0_idCounter:
  "idCounter (fst (send0 msg opts now s)) = (if no_id msg then Suc (idCounter s) else idCounter s)"
  by (simp add: send0_def Let_def)

lemma send0_responsePromises:
  "responsePromises (fst (send0 msg opts now s)) =
     (if receive_opt opts
      then (responsePromises s)
             ((if no_id msg then idCounter s else (case msg_id msg of Some i \<Rightarrow> i | None \<Rightarrow> 0))
              \<mapsto> nextPending s)
      else responsePromises s)"
  by (simp add: send0_def Let_def)

lemma send0_settled: "settled (fst (send0 msg opts now s)) = settled s"
  by (simp add: send0_def Let_def)

lemma send0_bus_sent:
  "bus_sent (fst (send0 msg opts now s)) =
     bus_sent s @ [msg\<lparr>msg_id := Some (if no_id msg then idCounter s
                                        else (case msg_id msg of Some i \<Rightarrow> i | None \<Rightarrow> 0)),
                      actorId := (case actorId_opt opts of Some a \<Rightarrow> Some a
                                 | None \<Rightarrow> Some (actor_id s))\<rparr>]"
  by (simp add: send0_def Let_def)

lemma send0_result:
  "snd (send0 msg opts now s) = (if receive_opt opts then Some (nextPending s) else None)"
  by (simp add: send0_def Let_def)

lemma timeoutLoop_dom:
  "timeoutLoop now ts rp st = (ts', rp', st') \<Longrightarrow> rp' k = Some p \<Longrightarrow> rp k = Some p"
proof (induction now ts rp st rule: timeoutLoop.induct)
  case (1 now rp st)
  then show ?case by simp
next
  case (2 now timeout msgId ts rp st)
  show ?case
  proof (cases "timeout \<le> now")
    case True
    with "2.prems"(1) have eq: "timeoutLoop now ts (rp(msgId := None))
             (case rp msgId of
                Some promise \<Rightarrow> st @ [(promise, RejectWith ''Response timed out.'')]
              | None \<Rightarrow> st) = (ts', rp', st')" by simp
    from "2.IH"[OF True eq "2.prems"(2)] have "(rp(msgId := None)) k = Some p" .
    then show ?thesis by (simp split: if_splits)
  next
    case False
    with 2 show ?thesis by simp
  qed
qed

lemma timeoutWorker_responsePromises:
  "responsePromises (timeoutWorker now s) k = Some p \<Longrightarrow> responsePromises s k = Some p"
  unfolding timeoutWorker_def
  by (cases "timeoutLoop now (timeouts s) (responsePromises s) (settled s)")
     (auto dest: timeoutLoop_dom)

lemma timeoutWorker_idCounter: "idCounter (timeoutWorker now s) = idCounter s"
  unfolding timeoutWorker_def
  by (cases "timeoutLoop now (timeouts s) (responsePromises s) (settled s)") simp

lemma onResponse_idCounter: "idCounter (onResponse msg s) = idCounter s"
  by (simp add: onResponse_def split: option.splits)

lemma onResponse_responsePromises:
  "responsePromises (onResponse msg s) k = Some p \<Longrightarrow> responsePromises s k = Some p"
  by (auto simp add: onResponse_def split: option.splits if_splits)

lemma onMessage_idCounter: "idCounter s \<le> idCounter (onMessage msg now s)"
  by (simp add: onMessage_def Let_def sendErrorResponse_def send0_idCounter
      onResponse_idCounter split: option.splits)

lemma onMessage_responsePromises:
  "responsePromises (onMessage msg now s) k = Some p \<Longrightarrow> responsePromises s k = Some p"
  by (auto simp add: onMessage_def Let_def sendErrorResponse_def send0_responsePromises
      split: option.splits if_splits dest: onResponse_responsePromises)

lemma step_counter_mono: "idCounter s \<le> idCounter (step s op)"
  by (cases op) (simp_all add: send0_idCounter onMessage_idCounter timeoutWorker_idCounter)

lemma run_counter_mono: "idCounter s \<le> idCounter (run s ops)"
  unfolding run_def
proof (induction ops arbitrary: s)
  case Nil
  then show ?case by simp
next
  case (Cons op ops)
  have "idCounter s \<le> idCounter (step s op)" by (rule step_counter_mono)
  also have "\<dots> \<le> idCounter (foldl step (step s op) ops)" by (rule Cons.IH)
  finally show ?case by simp
qed

lemma step_pending_below:
  assumes "pending_below s" and "request_op op"
  shows "pending_below (step s op)"
proof (cases op)
  case (OpSend0 msg opts now)
  show ?thesis
    using assms unfolding OpSend0 pending_below_def
    by (auto simp add: send0_idCounter send0_responsePromises less_Suc_eq split: if_splits)
next
  case (OpMessage msg now)
  show ?thesis
    unfolding OpMessage pending_below_def
  proof (intro allI impI)
    fix k p assume "responsePromises (step s (OpMessage msg now)) k = Some p"
    then have "responsePromises s k = Some p" by (auto dest: onMessage_responsePromises)
    then have "k < idCounter s" using assms(1) by (auto simp: pending_below_def)
    then show "k < idCounter (step s (OpMessage msg now))"
      using onMessage_idCounter[of s msg now] by simp
  qed
next
  case (OpTimeoutWorker now)
  show ?thesis
    using assms(1) unfolding OpTimeoutWorker pending_below_def
    by (auto simp add: timeoutWorker_idCounter dest: timeoutWorker_responsePromises)
qed

lemma run_pending_below:
  "pending_below s \<Longrightarrow> list_all request_op ops \<Longrightarrow> pending_below (run s ops)"
  unfolding run_def
  by (induction ops arbitrary: s) (simp_all add: step_pending_below)

lemma ForkedActor_pending_below: "pending_below (ForkedActor i parent)"
  by (simp add: pending_below_def ForkedActor_def)

text \<open>
  Claim C5. Take an endpoint in any state it reaches from its construction by calls of
  \<open>_send0\<close>, incoming messages and runs of the timeout worker, where every call of
  \<open>_send0\<close> that asks for a response comes without a preset id (as every such call in
  the source does). Then every id with a pending response is below the counter. An
  envelope sent without a preset id gets the value of the counter as its id and the
  counter goes up by one; so the id is not the id of any pending response, the
  pending entries that exist stay as they are, a request gets an entry of its own
  under its id, and every id assigned later is greater. No id is reused while its
  response is pending.
\<close>

theorem correlation_ids_fresh:
  assumes "list_all request_op ops" and "s = run (ForkedActor i parent) ops" and "no_id msg"
  shows "(\<forall>k\<in>dom (responsePromises s). k < idCounter s)
       \<and> idCounter s \<notin> dom (responsePromises s)
       \<and> msg_id (last (bus_sent (fst (send0 msg opts now s)))) = Some (idCounter s)
       \<and> idCounter (fst (send0 msg opts now s)) = Suc (idCounter s)
       \<and> (\<forall>k\<in>dom (responsePromises s).
            responsePromises (fst (send0 msg opts now s)) k = responsePromises s k)
       \<and> (receive_opt opts \<longrightarrow>
            responsePromises (fst (send0 msg opts now s)) (idCounter s) = Some (nextPending s)
          \<and> snd (send0 msg opts now s) = Some (nextPending s))
       \<and> (\<forall>ops'. idCounter s < idCounter (run (fst (send0 msg opts now s)) ops'))"
proof -
  have pb: "pending_below s"
    unfolding assms(2) using ForkedActor_pending_below assms(1) by (rule run_pending_below)
  have 1: "\<forall>k\<in>dom (responsePromises s). k < idCounter s"
    using pb by (auto simp: pending_below_def)
  then have 2: "idCounter s \<notin> dom (responsePromises s)" by blast
  have 3: "msg_id (last (bus_sent (fst (send0 msg opts now s)))) = Some (idCounter s)"
    using assms(3) by (simp add: send0_bus_sent)
  have 4: "idCounter (fst (send0 msg opts now s)) = Suc (idCounter s)"
    using assms(3) by (simp add: send0_idCounter)
  have 5: "\<forall>k\<in>dom (responsePromises s).
            responsePromises (fst (send0 msg opts now s)) k = responsePromises s k"
    using 2 assms(3) by (auto simp add: send0_responsePromises)
  have 6: "receive_opt opts \<longrightarrow>
            responsePromises (fst (send0 msg opts now s)) (idCounter s) = Some (nextPending s)
          \<and> snd (send0 msg opts now s) = Some (nextPending s)"
    using assms(3) by (simp add: send0_responsePromises send0_result)
  have 7: "\<forall>ops'. idCounter s < idCounter (run (fst (send0 msg opts now s)) ops')"
  proof
    fix ops'
    have "idCounter s < idCounter (fst (send0 msg opts now s))" using 4 by simp
    also have "\<dots> \<le> idCounter (run (fst (send0 msg opts now s)) ops')"
      by (rule run_counter_mono)
    finally show "idCounter s < idCounter (run (fst (send0 msg opts now s)) ops')" .
  qed
  from 1 2 3 4 5 6 7 show ?thesis by (intro conjI)
qed


theorem correlation_ids_fresh_witness:
  "idCounter (run (ForkedActor 7 None)
      [OpSend0 \<lparr>msg_type = ''actor-tree'', msg_id = None, actorId = None, msg_body = None\<rparr>
               \<lparr>receive_opt = True, timeout_opt = 0, actorId_opt = None\<rparr> 0,
       OpSend0 \<lparr>msg_type = ''actor-metrics'', msg_id = None, actorId = None, msg_body = None\<rparr>
               \<lparr>receive_opt = True, timeout_opt = 0, actorId_opt = None\<rparr> 1,
       OpMessage \<lparr>msg_type = ''actor-response'', msg_id = Some 1, actorId = Some 7,
                  msg_body = Some (ResponseBody (JNum 5))\<rparr> 2]) = 3
   \<and> dom (responsePromises (run (ForkedActor 7 None)
      [OpSend0 \<lparr>msg_type = ''actor-tree'', msg_id = None, actorId = None, msg_body = None\<rparr>
               \<lparr>receive_opt = True, timeout_opt = 0, actorId_opt = None\<rparr> 0,
       OpSend0 \<lparr>msg_type = ''actor-metrics'', msg_id = None, actorId = None, msg_body = None\<rparr>
               \<lparr>receive_opt = True, timeout_opt = 0, actorId_opt = None\<rparr> 1,
       OpMessage \<lparr>msg_type = ''actor-response'', msg_id = Some 1, actorId = Some 7,
                  msg_body = Some (ResponseBody (JNum 5))\<rparr> 2])) = {2}
   \<and> msg_id (last (bus_sent (fst (send0
         \<lparr>msg_type = ''actor-tree'', msg_id = None, actorId = None, msg_body = None\<rparr>
         \<lparr>receive_opt = True, timeout_opt = 0, actorId_opt = None\<rparr> 3
         (run (ForkedActor 7 None)
      [OpSend0 \<lparr>msg_type = ''actor-tree'', msg_id = None, actorId = None, msg_body = None\<rparr>
               \<lparr>receive_opt = True, timeout_opt = 0, actorId_opt = None\<rparr> 0,
       OpSend0 \<lparr>msg_type = ''actor-metrics'', msg_id = None, actorId = None, msg_body = None\<rparr>
               \<lparr>receive_opt = True, timeout_opt = 0, actorId_opt = None\<rparr> 1,
       OpMessage \<lparr>msg_type = ''actor-response'', msg_id = Some 1, actorId = Some 7,
                  msg_body = Some (ResponseBody (JNum 5))\<rparr> 2]))))) = Some 3"
proof -
  let ?req1 = "\<lparr>msg_type = ''actor-tree'', msg_id = None, actorId = None, msg_body = None\<rparr>"
  let ?req2 = "\<lparr>msg_type = ''actor-metrics'', msg_id = None, actorId = None, msg_body = None\<rparr>"
  let ?opts = "\<lparr>receive_opt = True, timeout_opt = 0, actorId_opt = None\<rparr>"
  let ?resp = "\<lparr>msg_type = ''actor-response'', msg_id = Some 1, actorId = Some 7,
                  msg_body = Some (ResponseBody (JNum 5))\<rparr>"
  let ?ops = "[OpSend0 ?req1 ?opts 0, OpSend0 ?req2 ?opts 1, OpMessage ?resp 2]"
  let ?s = "run (ForkedActor 7 None) ?ops"
  have ops: "list_all request_op ?ops" by (simp add: no_id_def)
  have n: "no_id ?req1" by (simp add: no_id_def)
  have c: "idCounter ?s = 3"
    by (simp add: run_def ForkedActor_def send0_def onMessage_def onResponse_def no_id_def Let_def)
  have d: "dom (responsePromises ?s) = {2}"
    by (auto simp add: run_def ForkedActor_def send0_def onMessage_def onResponse_def no_id_def
        Let_def split: if_splits)
  show ?thesis
    using correlation_ids_fresh[OF ops refl n, where opts = ?opts and now = 3] c d by simp
qed

subsection \<open>Timeouts\<close>

lemma splice_sortedIndex:
  "take (sortedIndex ts obj) ts @ [obj] @ drop (sortedIndex ts obj) ts
     = takeWhile (\<lambda>t. fst t < fst obj) ts @ obj # dropWhile (\<lambda>t. fst t < fst obj) ts"
  unfolding sortedIndex_def
  by (simp add: takeWhile_eq_take[symmetric] dropWhile_eq_drop[symmetric])

lemma sorted_splice:
  "sorted (map fst ts) \<Longrightarrow>
   sorted (map fst (takeWhile (\<lambda>t. fst t < fst obj) ts @ obj # dropWhile (\<lambda>t. fst t < fst obj) ts))"
proof (induction ts)
  case Nil
  then show ?case by simp
next
  case (Cons t ts)
  show ?case
  proof (cases "fst t < fst obj")
    case True
    have "sorted (map fst (takeWhile (\<lambda>t. fst t < fst obj) ts @ obj #
            dropWhile (\<lambda>t. fst t < fst obj) ts))"
      using Cons by simp
    moreover have "\<forall>x\<in>set (takeWhile (\<lambda>t. fst t < fst obj) ts @ obj #
            dropWhile (\<lambda>t. fst t < fst obj) ts). fst t \<le> fst x"
    proof
      fix x assume "x \<in> set (takeWhile (\<lambda>t. fst t < fst obj) ts @ obj #
            dropWhile (\<lambda>t. fst t < fst obj) ts)"
      then have "x = obj \<or> x \<in> set ts"
        by (auto dest: set_takeWhileD set_dropWhileD)
      then show "fst t \<le> fst x" using True Cons.prems by auto
    qed
    ultimately show ?thesis using True by auto
  next
    case False
    then show ?thesis using Cons.prems by auto
  qed
qed

lemma send0_timeouts_sorted:
  "sorted (map fst (timeouts s)) \<Longrightarrow> sorted (map fst (timeouts (fst (send0 msg opts now s))))"
  using sorted_splice[of "timeouts s" "(now + nat (timeout_opt opts), 0)"]
  by (simp add: send0_def Let_def splice_sortedIndex del: append.simps)

lemma send0_timeouts_mem:
  "receive_opt opts \<Longrightarrow> 0 < timeout_opt opts \<Longrightarrow> no_id msg \<Longrightarrow>
   (now + nat (timeout_opt opts), idCounter s) \<in> set (timeouts (fst (send0 msg opts now s)))"
  by (simp add: send0_def Let_def splice_sortedIndex del: append.simps)

lemma timeoutLoop_settled_mono:
  "timeoutLoop now ts rp st = (ts', rp', st') \<Longrightarrow> set st \<subseteq> set st'"
proof (induction now ts rp st rule: timeoutLoop.induct)
  case (1 now rp st)
  then show ?case by simp
next
  case (2 now timeout msgId ts rp st)
  show ?case
  proof (cases "timeout \<le> now")
    case True
    with "2.prems" have eq: "timeoutLoop now ts (rp(msgId := None))
             (case rp msgId of
                Some promise \<Rightarrow> st @ [(promise, RejectWith ''Response timed out.'')]
              | None \<Rightarrow> st) = (ts', rp', st')" by simp
    from "2.IH"[OF True eq] show ?thesis by (auto split: option.splits)
  next
    case False
    with "2.prems" show ?thesis by simp
  qed
qed

lemma timeoutLoop_suffix:
  "timeoutLoop now ts rp st = (ts', rp', st') \<Longrightarrow> suffix ts' ts"
proof (induction now ts rp st rule: timeoutLoop.induct)
  case (1 now rp st)
  then show ?case by simp
next
  case (2 now timeout msgId ts rp st)
  show ?case
  proof (cases "timeout \<le> now")
    case True
    with "2.prems" have eq: "timeoutLoop now ts (rp(msgId := None))
             (case rp msgId of
                Some promise \<Rightarrow> st @ [(promise, RejectWith ''Response timed out.'')]
              | None \<Rightarrow> st) = (ts', rp', st')" by simp
    from "2.IH"[OF True eq] show ?thesis by (rule suffix_ConsI)
  next
    case False
    with "2.prems" show ?thesis by simp
  qed
qed

lemma timeoutLoop_rejects:
  "sorted (map fst ts) \<Longrightarrow> (deadline, k) \<in> set ts \<Longrightarrow> deadline \<le> now \<Longrightarrow>
   timeoutLoop now ts rp st = (ts', rp', st') \<Longrightarrow>
   rp' k = None \<and> (\<forall>d. rp k = Some d \<longrightarrow> (d, RejectWith ''Response timed out.'') \<in> set st')"
proof (induction now ts rp st rule: timeoutLoop.induct)
  case (1 now rp st)
  then show ?case by simp
next
  case (2 now timeout msgId ts rp st)
  have le: "timeout \<le> now" using "2.prems"(1,2,3) by auto
  let ?st1 = "(case rp msgId of
                Some promise \<Rightarrow> st @ [(promise, RejectWith ''Response timed out.'')]
              | None \<Rightarrow> st)"
  from "2.prems"(4) le have eq: "timeoutLoop now ts (rp(msgId := None)) ?st1 = (ts', rp', st')"
    by simp
  show ?case
  proof (cases "msgId = k")
    case True
    have "rp' k = None"
    proof (cases "rp' k")
      case None
      then show ?thesis .
    next
      case (Some p)
      from timeoutLoop_dom[OF eq Some] True show ?thesis by simp
    qed
    moreover have "\<forall>d. rp k = Some d \<longrightarrow> (d, RejectWith ''Response timed out.'') \<in> set st'"
      using timeoutLoop_settled_mono[OF eq] True by auto
    ultimately show ?thesis by simp
  next
    case False
    then have mem: "(deadline, k) \<in> set ts" using "2.prems"(2) by auto
    have "sorted (map fst ts)" using "2.prems"(1) by simp
    from "2.IH"[OF le this mem "2.prems"(3) eq] False show ?thesis by simp
  qed
qed

lemma timeoutWorker_sorted:
  "sorted (map fst (timeouts s)) \<Longrightarrow> sorted (map fst (timeouts (timeoutWorker now s)))"
proof -
  assume a: "sorted (map fst (timeouts s))"
  obtain ts rp st where eq: "timeoutLoop now (timeouts s) (responsePromises s) (settled s) = (ts, rp, st)"
    by (cases "timeoutLoop now (timeouts s) (responsePromises s) (settled s)")
  from timeoutLoop_suffix[OF eq] obtain zs where "timeouts s = zs @ ts" by (auto simp: suffix_def)
  then have "sorted (map fst ts)" using a by (simp add: sorted_append)
  then show ?thesis by (simp add: timeoutWorker_def eq)
qed

lemma onMessage_timeouts: "timeouts (onMessage msg now s) = timeouts s"
  by (simp add: onMessage_def Let_def sendErrorResponse_def send0_def onResponse_def
      split: option.splits)

lemma step_sorted:
  "sorted (map fst (timeouts s)) \<Longrightarrow> sorted (map fst (timeouts (step s op)))"
  by (cases op) (simp_all add: send0_timeouts_sorted onMessage_timeouts timeoutWorker_sorted)

lemma run_sorted:
  "sorted (map fst (timeouts s)) \<Longrightarrow> sorted (map fst (timeouts (run s ops)))"
  unfolding run_def by (induction ops arbitrary: s) (simp_all add: step_sorted)

lemma late_response_discarded:
  assumes "responsePromises s k = None" and "msg_id msg = Some k"
    and "msg_type msg = ''actor-response'' \<or> msg_type msg = ''parent-pong''"
  shows "settled (onMessage msg t s) = settled s
       \<and> responsePromises (onMessage msg t s) = responsePromises s
       \<and> bus_sent (onMessage msg t s) = bus_sent s"
  using assms by (auto simp add: onMessage_def Let_def onResponse_def)


lemma unsettled_delete: "unsettled rp st np \<Longrightarrow> unsettled (rp(k := None)) st np"
  unfolding unsettled_def by (auto split: if_splits)

lemma unsettled_settle:
  assumes "unsettled rp st np" and "rp k = Some d"
  shows "unsettled (rp(k := None)) (st @ [(d, x)]) np"
  unfolding unsettled_def
proof (intro conjI allI impI ballI)
  fix k' d' assume h: "(rp(k := None)) k' = Some d'"
  then have k': "k' \<noteq> k" and r: "rp k' = Some d'" by (auto split: if_splits)
  from assms(1) r have a: "d' < np" "d' \<notin> fst ` set st" "\<forall>k''. rp k'' = Some d' \<longrightarrow> k'' = k'"
    unfolding unsettled_def by blast+
  show "d' < np" by (rule a(1))
  have "d' \<noteq> d" using a(3) assms(2) k' by auto
  then show "d' \<notin> fst ` set (st @ [(d, x)])" using a(2) by auto
  fix k'' assume "(rp(k := None)) k'' = Some d'"
  then have "rp k'' = Some d'" by (auto split: if_splits)
  then show "k'' = k'" using a(3) by simp
next
  fix e assume "e \<in> set (st @ [(d, x)])"
  then show "fst e < np" using assms unfolding unsettled_def by auto
qed

lemma unsettled_add: "unsettled rp st np \<Longrightarrow> unsettled (rp(k \<mapsto> np)) st (Suc np)"
  unfolding unsettled_def
  by (auto split: if_splits simp: less_Suc_eq) (force+)?

lemma send0_nextPending:
  "nextPending (fst (send0 msg opts now s)) =
     (if receive_opt opts then Suc (nextPending s) else nextPending s)"
  by (simp add: send0_def Let_def)

lemma send0_unsettled:
  "unsettled (responsePromises s) (settled s) (nextPending s) \<Longrightarrow>
   unsettled (responsePromises (fst (send0 msg opts now s))) (settled (fst (send0 msg opts now s)))
     (nextPending (fst (send0 msg opts now s)))"
  by (simp add: send0_responsePromises send0_settled send0_nextPending unsettled_add)

lemma onResponse_unsettled:
  "unsettled (responsePromises s) (settled s) (nextPending s) \<Longrightarrow>
   unsettled (responsePromises (onResponse msg s)) (settled (onResponse msg s))
     (nextPending (onResponse msg s))"
  by (auto simp add: onResponse_def unsettled_settle split: option.splits)

lemma onMessage_unsettled:
  assumes "unsettled (responsePromises s) (settled s) (nextPending s)"
  shows "unsettled (responsePromises (onMessage msg now s)) (settled (onMessage msg now s))
     (nextPending (onMessage msg now s))"
proof -
  let ?s = "s\<lparr>lastReceiveTimestamp := Some now\<rparr>"
  have a: "unsettled (responsePromises ?s) (settled ?s) (nextPending ?s)" using assms by simp
  have b: "\<And>i d. responsePromises s i = Some d \<Longrightarrow>
     unsettled ((responsePromises s)(i := None)) (settled s @ [(d, Resolve JUndefined)])
       (nextPending s)"
    using assms by (rule unsettled_settle)
  show ?thesis
    using a assms onResponse_unsettled[OF a, of msg] b
    by (simp add: onMessage_def Let_def sendErrorResponse_def send0_responsePromises
        send0_settled send0_nextPending split: option.splits)
qed

lemma timeoutLoop_unsettled:
  "timeoutLoop now ts rp st = (ts', rp', st') \<Longrightarrow> unsettled rp st np \<Longrightarrow> unsettled rp' st' np"
proof (induction now ts rp st rule: timeoutLoop.induct)
  case (1 now rp st)
  then show ?case by simp
next
  case (2 now timeout msgId ts rp st)
  show ?case
  proof (cases "timeout \<le> now")
    case True
    let ?st1 = "(case rp msgId of
                Some promise \<Rightarrow> st @ [(promise, RejectWith ''Response timed out.'')]
              | None \<Rightarrow> st)"
    from "2.prems"(1) True have eq: "timeoutLoop now ts (rp(msgId := None)) ?st1 = (ts', rp', st')"
      by simp
    have "unsettled (rp(msgId := None)) ?st1 np"
      using "2.prems"(2) by (auto split: option.splits intro: unsettled_delete unsettled_settle)
    from "2.IH"[OF True eq this] show ?thesis .
  next
    case False
    with "2.prems" show ?thesis by simp
  qed
qed

lemma timeoutWorker_unsettled:
  assumes "unsettled (responsePromises s) (settled s) (nextPending s)"
  shows "unsettled (responsePromises (timeoutWorker now s)) (settled (timeoutWorker now s))
     (nextPending (timeoutWorker now s))"
proof -
  obtain ts rp st where eq: "timeoutLoop now (timeouts s) (responsePromises s) (settled s) = (ts, rp, st)"
    by (cases "timeoutLoop now (timeouts s) (responsePromises s) (settled s)")
  from timeoutLoop_unsettled[OF eq assms] show ?thesis by (simp add: timeoutWorker_def eq)
qed

lemma step_unsettled:
  "unsettled (responsePromises s) (settled s) (nextPending s) \<Longrightarrow>
   unsettled (responsePromises (step s op)) (settled (step s op)) (nextPending (step s op))"
  by (cases op) (simp_all add: send0_unsettled onMessage_unsettled timeoutWorker_unsettled)

lemma run_unsettled:
  "unsettled (responsePromises s) (settled s) (nextPending s) \<Longrightarrow>
   unsettled (responsePromises (run s ops)) (settled (run s ops)) (nextPending (run s ops))"
  unfolding run_def by (induction ops arbitrary: s) (simp_all add: step_unsettled)

lemma ForkedActor_unsettled:
  "unsettled (responsePromises (ForkedActor i parent)) (settled (ForkedActor i parent))
     (nextPending (ForkedActor i parent))"
  by (simp add: unsettled_def ForkedActor_def)

lemma timeoutLoop_dropped:
  "timeoutLoop now ts rp st = (ts', rp', st') \<Longrightarrow> \<forall>k. rp k \<noteq> Some d \<Longrightarrow>
   filter (\<lambda>e. fst e = d) st' = filter (\<lambda>e. fst e = d) st \<and> (\<forall>k. rp' k \<noteq> Some d)"
proof (induction now ts rp st rule: timeoutLoop.induct)
  case (1 now rp st)
  then show ?case by simp
next
  case (2 now timeout msgId ts rp st)
  show ?case
  proof (cases "timeout \<le> now")
    case True
    let ?st1 = "(case rp msgId of
                Some promise \<Rightarrow> st @ [(promise, RejectWith ''Response timed out.'')]
              | None \<Rightarrow> st)"
    from "2.prems"(1) True have eq: "timeoutLoop now ts (rp(msgId := None)) ?st1 = (ts', rp', st')"
      by simp
    have a: "\<forall>k. (rp(msgId := None)) k \<noteq> Some d" using "2.prems"(2) by simp
    have b: "filter (\<lambda>e. fst e = d) ?st1 = filter (\<lambda>e. fst e = d) st"
      using "2.prems"(2) by (auto split: option.splits)
    from "2.IH"[OF True eq a] b show ?thesis by simp
  next
    case False
    with "2.prems" show ?thesis by simp
  qed
qed

lemma timeoutLoop_rejects_once:
  "sorted (map fst ts) \<Longrightarrow> (deadline, k) \<in> set ts \<Longrightarrow> deadline \<le> now \<Longrightarrow>
   timeoutLoop now ts rp st = (ts', rp', st') \<Longrightarrow> unsettled rp st np \<Longrightarrow> rp k = Some d \<Longrightarrow>
   filter (\<lambda>e. fst e = d) st' = [(d, RejectWith ''Response timed out.'')]
   \<and> (\<forall>k. rp' k \<noteq> Some d)"
proof (induction now ts rp st rule: timeoutLoop.induct)
  case (1 now rp st)
  then show ?case by simp
next
  case (2 now timeout msgId ts rp st)
  have le: "timeout \<le> now" using "2.prems"(1,2,3) by auto
  let ?st1 = "(case rp msgId of
                Some promise \<Rightarrow> st @ [(promise, RejectWith ''Response timed out.'')]
              | None \<Rightarrow> st)"
  from "2.prems"(4) le have eq: "timeoutLoop now ts (rp(msgId := None)) ?st1 = (ts', rp', st')"
    by simp
  have uniq: "\<forall>k'. rp k' = Some d \<longrightarrow> k' = k"
    and nots: "d \<notin> fst ` set st"
    using "2.prems"(5,6) unfolding unsettled_def by blast+
  have f0: "filter (\<lambda>e. fst e = d) st = []"
    using nots by (auto simp: filter_empty_conv)
  show ?case
  proof (cases "msgId = k")
    case True
    have a: "\<forall>k'. (rp(msgId := None)) k' \<noteq> Some d" using uniq True by auto
    have "filter (\<lambda>e. fst e = d) ?st1 = [(d, RejectWith ''Response timed out.'')]"
      using True "2.prems"(6) f0 by simp
    with timeoutLoop_dropped[OF eq a] show ?thesis by simp
  next
    case False
    then have mem: "(deadline, k) \<in> set ts" using "2.prems"(2) by auto
    have so: "sorted (map fst ts)" using "2.prems"(1) by simp
    have u1: "unsettled (rp(msgId := None)) ?st1 np"
      using "2.prems"(5) by (auto split: option.splits intro: unsettled_delete unsettled_settle)
    have r1: "(rp(msgId := None)) k = Some d" using False "2.prems"(6) by simp
    from "2.IH"[OF le so mem "2.prems"(3) eq u1 r1] show ?thesis .
  qed
qed

lemma send0_dropped:
  assumes "d < nextPending s" and "\<forall>k. responsePromises s k \<noteq> Some d"
  shows "d < nextPending (fst (send0 msg opts now s))
       \<and> (\<forall>k. responsePromises (fst (send0 msg opts now s)) k \<noteq> Some d)
       \<and> settled (fst (send0 msg opts now s)) = settled s"
  using assms by (auto simp add: send0_nextPending send0_responsePromises send0_settled)

lemma onResponse_dropped:
  assumes "d < nextPending s" and "\<forall>k. responsePromises s k \<noteq> Some d"
  shows "d < nextPending (onResponse msg s)
       \<and> (\<forall>k. responsePromises (onResponse msg s) k \<noteq> Some d)
       \<and> filter (\<lambda>e. fst e = d) (settled (onResponse msg s)) = filter (\<lambda>e. fst e = d) (settled s)"
  using assms by (auto simp add: onResponse_def split: option.splits)

lemma onMessage_dropped:
  assumes "d < nextPending s" and "\<forall>k. responsePromises s k \<noteq> Some d"
  shows "d < nextPending (onMessage msg now s)
       \<and> (\<forall>k. responsePromises (onMessage msg now s) k \<noteq> Some d)
       \<and> filter (\<lambda>e. fst e = d) (settled (onMessage msg now s))
           = filter (\<lambda>e. fst e = d) (settled s)"
proof -
  let ?s = "s\<lparr>lastReceiveTimestamp := Some now\<rparr>"
  have a: "d < nextPending ?s" "\<forall>k. responsePromises ?s k \<noteq> Some d" using assms by simp_all
  note r = onResponse_dropped[OF a, of msg]
  show ?thesis
    using assms r
    by (auto simp add: onMessage_def Let_def sendErrorResponse_def send0_nextPending
        send0_responsePromises send0_settled split: option.splits)
qed

lemma timeoutWorker_dropped:
  assumes "d < nextPending s" and "\<forall>k. responsePromises s k \<noteq> Some d"
  shows "d < nextPending (timeoutWorker now s)
       \<and> (\<forall>k. responsePromises (timeoutWorker now s) k \<noteq> Some d)
       \<and> filter (\<lambda>e. fst e = d) (settled (timeoutWorker now s))
           = filter (\<lambda>e. fst e = d) (settled s)"
proof -
  obtain ts rp st where eq: "timeoutLoop now (timeouts s) (responsePromises s) (settled s) = (ts, rp, st)"
    by (cases "timeoutLoop now (timeouts s) (responsePromises s) (settled s)")
  from timeoutLoop_dropped[OF eq assms(2)] assms(1) show ?thesis
    by (simp add: timeoutWorker_def eq)
qed

lemma step_dropped:
  assumes "d < nextPending s" and "\<forall>k. responsePromises s k \<noteq> Some d"
  shows "d < nextPending (step s op)
       \<and> (\<forall>k. responsePromises (step s op) k \<noteq> Some d)
       \<and> filter (\<lambda>e. fst e = d) (settled (step s op)) = filter (\<lambda>e. fst e = d) (settled s)"
proof (cases op)
  case (OpSend0 msg opts now)
  then show ?thesis using send0_dropped[OF assms, of msg opts now] by simp
next
  case (OpMessage msg now)
  then show ?thesis using onMessage_dropped[OF assms, of msg now] by simp
next
  case (OpTimeoutWorker now)
  then show ?thesis using timeoutWorker_dropped[OF assms, of now] assms by simp
qed

lemma run_dropped:
  "d < nextPending s \<Longrightarrow> \<forall>k. responsePromises s k \<noteq> Some d \<Longrightarrow>
   filter (\<lambda>e. fst e = d) (settled (run s ops)) = filter (\<lambda>e. fst e = d) (settled s)"
  unfolding run_def
proof (induction ops arbitrary: s)
  case Nil
  then show ?case by simp
next
  case (Cons op ops)
  from step_dropped[OF Cons.prems, of op]
  have a: "d < nextPending (step s op)" and b: "\<forall>k. responsePromises (step s op) k \<noteq> Some d"
    and c: "filter (\<lambda>e. fst e = d) (settled (step s op)) = filter (\<lambda>e. fst e = d) (settled s)"
    by simp_all
  from Cons.IH[OF a b] c show ?case by simp
qed

lemma timeoutWorker_nextPending: "nextPending (timeoutWorker now s) = nextPending s"
  unfolding timeoutWorker_def
  by (cases "timeoutLoop now (timeouts s) (responsePromises s) (settled s)") simp

text \<open>
  A request that is waiting stays so. \<open>_send0\<close> only adds to \<open>timeouts\<close>, and the ids
  already there are below the counter, so the deadline of a new request is the only
  one with its id; a message that is no answer with that id leaves its pending
  promise alone; and a run of the timeout worker before the deadline takes neither
  the deadline nor the promise away.
\<close>

lemma run_append: "run s (xs @ ys) = run (run s xs) ys"
  by (simp add: run_def)

lemma send0_timeouts_set:
  "set (timeouts (fst (send0 msg opts now s))) =
     (if receive_opt opts \<and> 0 < timeout_opt opts
      then insert (now + nat (timeout_opt opts),
                   if no_id msg then idCounter s
                   else (case msg_id msg of Some i \<Rightarrow> i | None \<Rightarrow> 0)) (set (timeouts s))
      else set (timeouts s))"
proof -
  have "\<And>P obj (ts :: (nat \<times> nat) list). set (takeWhile P ts @ obj # dropWhile P ts) = insert obj (set ts)"
  proof -
    fix P obj and ts :: "(nat \<times> nat) list"
    have "set (takeWhile P ts) \<union> set (dropWhile P ts) = set ts"
      by (metis set_append takeWhile_dropWhile_id)
    then show "set (takeWhile P ts @ obj # dropWhile P ts) = insert obj (set ts)" by auto
  qed
  then show ?thesis
    by (simp add: send0_def Let_def splice_sortedIndex del: append.simps)
qed

lemma timeoutWorker_timeouts_subset:
  "set (timeouts (timeoutWorker now s)) \<subseteq> set (timeouts s)"
proof -
  obtain ts rp st where eq: "timeoutLoop now (timeouts s) (responsePromises s) (settled s) = (ts, rp, st)"
    by (cases "timeoutLoop now (timeouts s) (responsePromises s) (settled s)")
  from timeoutLoop_suffix[OF eq] show ?thesis
    by (auto simp add: timeoutWorker_def eq suffix_def)
qed

lemma step_timeouts_below:
  assumes "timeouts_below s" and "request_op op"
  shows "timeouts_below (step s op)"
proof (cases op)
  case (OpSend0 msg opts now)
  show ?thesis
    using assms unfolding OpSend0 timeouts_below_def list_all_iff
    by (auto simp add: send0_timeouts_set send0_idCounter less_Suc_eq split: if_splits)
next
  case (OpMessage msg now)
  show ?thesis
    using assms(1) onMessage_idCounter[of s msg now]
    unfolding OpMessage timeouts_below_def list_all_iff
    by (auto simp add: onMessage_timeouts)
next
  case (OpTimeoutWorker now)
  show ?thesis
    using assms(1) timeoutWorker_timeouts_subset[of now s]
    unfolding OpTimeoutWorker timeouts_below_def list_all_iff
    by (auto simp add: timeoutWorker_idCounter)
qed

lemma run_timeouts_below:
  "timeouts_below s \<Longrightarrow> list_all request_op ops \<Longrightarrow> timeouts_below (run s ops)"
  unfolding run_def by (induction ops arbitrary: s) (simp_all add: step_timeouts_below)

lemma onMessage_keeps_pending:
  assumes "\<not> (msg_id msg = Some k
         \<and> (msg_type msg = ''actor-response'' \<or> msg_type msg = ''parent-pong''
            \<or> msg_type msg = ''actor-destroyed''))"
  shows "responsePromises (onMessage msg now s) k = responsePromises s k"
  using assms
  by (auto simp add: onMessage_def Let_def sendErrorResponse_def send0_responsePromises
      onResponse_def split: option.splits)

lemma timeoutLoop_keeps:
  "timeoutLoop now ts rp st = (ts', rp', st') \<Longrightarrow>
   list_all (\<lambda>e. snd e \<noteq> k \<or> now < fst e) ts \<Longrightarrow>
   rp' k = rp k \<and> (\<forall>e\<in>set ts. snd e = k \<longrightarrow> e \<in> set ts')"
proof (induction now ts rp st rule: timeoutLoop.induct)
  case (1 now rp st)
  then show ?case by simp
next
  case (2 now timeout msgId ts rp st)
  show ?case
  proof (cases "timeout \<le> now")
    case True
    let ?st1 = "(case rp msgId of
                Some promise \<Rightarrow> st @ [(promise, RejectWith ''Response timed out.'')]
              | None \<Rightarrow> st)"
    from "2.prems"(1) True have eq: "timeoutLoop now ts (rp(msgId := None)) ?st1 = (ts', rp', st')"
      by simp
    have ne: "msgId \<noteq> k" using "2.prems"(2) True by auto
    have rest: "list_all (\<lambda>e. snd e \<noteq> k \<or> now < fst e) ts" using "2.prems"(2) by simp
    from "2.IH"[OF True eq rest] ne show ?thesis by simp
  next
    case False
    with "2.prems" show ?thesis by simp
  qed
qed

lemma step_awaiting:
  assumes "awaiting deadline k d s" and "request_op op" and "quiet_op k deadline op"
  shows "awaiting deadline k d (step s op)"
proof (cases op)
  case (OpSend0 msg opts now)
  have k: "k < idCounter s" using assms(1) by (simp add: awaiting_def)
  show ?thesis
    using assms(1,2) k unfolding OpSend0 awaiting_def list_all_iff
    by (auto simp add: send0_timeouts_set send0_idCounter send0_responsePromises
        split: if_splits)
next
  case (OpMessage msg now)
  have "responsePromises (onMessage msg now s) k = responsePromises s k"
    using assms(3) unfolding OpMessage by (intro onMessage_keeps_pending) simp
  then show ?thesis
    using assms(1) onMessage_idCounter[of s msg now]
    unfolding OpMessage awaiting_def
    by (simp add: onMessage_timeouts)
next
  case (OpTimeoutWorker now)
  show ?thesis
  proof (cases "timeoutWorkerInterval s")
    case False
    then show ?thesis using assms(1) OpTimeoutWorker by simp
  next
    case True
    obtain ts rp st where
      eq: "timeoutLoop now (timeouts s) (responsePromises s) (settled s) = (ts, rp, st)"
      by (cases "timeoutLoop now (timeouts s) (responsePromises s) (settled s)")
    have lt: "now < deadline" using assms(3) OpTimeoutWorker by simp
    have "list_all (\<lambda>e. snd e \<noteq> k \<or> now < fst e) (timeouts s)"
      using assms(1) lt unfolding awaiting_def list_all_iff by auto
    from timeoutLoop_keeps[OF eq this]
    have rp: "rp k = responsePromises s k"
      and keep: "\<forall>e\<in>set (timeouts s). snd e = k \<longrightarrow> e \<in> set ts" by simp_all
    have sub: "set ts \<subseteq> set (timeouts s)"
      using timeoutLoop_suffix[OF eq] by (auto simp: suffix_def)
    have "timeoutWorker now s = s\<lparr>timeouts := ts, responsePromises := rp, settled := st\<rparr>"
      by (simp add: timeoutWorker_def eq)
    then show ?thesis
      using assms(1) True rp keep sub unfolding OpTimeoutWorker awaiting_def list_all_iff
      by auto
  qed
qed

lemma run_awaiting:
  "awaiting deadline k d s \<Longrightarrow> list_all request_op ops \<Longrightarrow>
   list_all (quiet_op k deadline) ops \<Longrightarrow> awaiting deadline k d (run s ops)"
  unfolding run_def by (induction ops arbitrary: s) (simp_all add: step_awaiting)

lemma send0_awaiting:
  assumes "timeouts_below s" and "no_id msg" and "receive_opt opts" and "0 < timeout_opt opts"
  shows "awaiting (now + nat (timeout_opt opts)) (idCounter s) (nextPending s)
           (fst (send0 msg opts now s))"
  using assms unfolding awaiting_def timeouts_below_def list_all_iff
  by (auto simp add: send0_timeouts_set send0_idCounter send0_responsePromises)

lemma onMessage_response:
  assumes "listening s" and "msg_id resp = Some k" and "0 < k"
    and "actorId resp = Some (actor_id s)" and "msg_type resp = ''actor-response''"
  shows "onMessage resp t s = onResponse resp (s\<lparr>lastReceiveTimestamp := Some t\<rparr>)"
  using assms by (simp add: onMessage_def Let_def no_id_def)

lemma ForkedActor_timeouts_below: "timeouts_below (ForkedActor i parent)"
  by (simp add: timeouts_below_def ForkedActor_def)

lemma onResponse_settles_once:
  assumes "unsettled (responsePromises s) (settled s) (nextPending s)"
    and "responsePromises s k = Some d" and "msg_id resp = Some k"
    and "msg_body resp = Some (ResponseBody r)"
  shows "filter (\<lambda>e. fst e = d) (settled (onResponse resp s)) = [(d, Resolve r)]
       \<and> (\<forall>k. responsePromises (onResponse resp s) k \<noteq> Some d)
       \<and> d < nextPending (onResponse resp s)"
proof -
  have d: "d \<notin> fst ` set (settled s)" and lt: "d < nextPending s"
    and one: "\<forall>k'. responsePromises s k' = Some d \<longrightarrow> k' = k"
    using assms(1,2) unfolding unsettled_def by blast+
  have f: "filter (\<lambda>e. fst e = d) (settled s) = []"
    unfolding filter_empty_conv using d by (metis image_eqI)
  have g: "\<forall>k'. k' \<noteq> k \<longrightarrow> responsePromises s k' \<noteq> Some d"
    using one by blast
  have e: "onResponse resp s =
             s\<lparr>responsePromises := (responsePromises s)(k := None),
               settled := settled s @ [(d, Resolve r)]\<rparr>"
    using assms(2,3,4) by (simp add: onResponse_def)
  show ?thesis
    unfolding e using f lt g by simp
qed

text \<open>
  Claim C4, as stated, fails: a response that arrives after the deadline is not
  always discarded, and the caller is not always given the timeout error. The
  request below is sent at time 0 with a timeout of 100 ms, so its deadline is 100.
  No response arrives before the deadline; one arrives at time 500, before the
  timeout worker runs at 1000. The caller's promise is resolved with that response;
  the worker, at 1000 and at 2000, rejects nothing.
\<close>

theorem response_after_deadline_delivered:
  "timeouts (run (ForkedActor 7 None)
      [OpSend0 \<lparr>msg_type = ''actor-tree'', msg_id = None, actorId = None, msg_body = None\<rparr>
               \<lparr>receive_opt = True, timeout_opt = 100, actorId_opt = None\<rparr> 0]) = [(100, 1)]
   \<and> settled (run (ForkedActor 7 None)
      [OpSend0 \<lparr>msg_type = ''actor-tree'', msg_id = None, actorId = None, msg_body = None\<rparr>
               \<lparr>receive_opt = True, timeout_opt = 100, actorId_opt = None\<rparr> 0,
       OpMessage \<lparr>msg_type = ''actor-response'', msg_id = Some 1, actorId = Some 7,
                  msg_body = Some (ResponseBody (JStr ''late''))\<rparr> 500,
       OpTimeoutWorker 1000,
       OpTimeoutWorker 2000]) = [(0, Resolve (JStr ''late''))]"
  by (simp add: run_def ForkedActor_def send0_def no_id_def Let_def sortedIndex_def
        timeoutWorker_def onMessage_def onResponse_def)

text \<open>
  Claim C4, amended. Take an endpoint in any state \<open>s0\<close> it reaches, and a request
  sent there by \<open>_send0\<close> at time \<open>now0\<close> with the \<open>receive\<close> option and a positive
  timeout: it is sent with the id \<open>k\<close>, the caller gets the pending promise \<open>d\<close>, and
  the deadline is \<open>now0 + timeout\<close>. Let anything happen afterwards (\<open>ops1\<close>: further
  requests, messages, runs of the worker) except the arrival of an answer with the id
  \<open>k\<close> and a run of the worker at or after the deadline, and let \<open>s2\<close> be the state
  reached. Then \<open>timeouts\<close> is ordered by deadline and still holds the deadline of
  the request, and the promise is still pending under \<open>k\<close>, not settled. If the
  timeout worker, which polls every second, is still running (no \<open>clearInterval\<close>)
  and runs next at or after the deadline, it rejects the promise with
  \<open>Response timed out.\<close> and removes the pending entry; and whatever happens at the
  endpoint afterwards, a response with that id included, settles that promise no
  more: a late response is dropped. If instead the response with the id \<open>k\<close> arrives
  in \<open>s2\<close>, at any time \<open>t\<close>, after the deadline or not, the promise is resolved with
  it, and no later run of the worker rejects it.
\<close>

theorem timeout_rejects_at_poll:
  assumes "list_all request_op ops0" and "s0 = run (ForkedActor i parent) ops0"
    and "no_id msg" and "receive_opt opts" and "0 < timeout_opt opts"
    and "s1 = fst (send0 msg opts now0 s0)"
    and "k = idCounter s0" and "d = nextPending s0"
    and "deadline = now0 + nat (timeout_opt opts)"
    and "list_all request_op ops1" and "list_all (quiet_op k deadline) ops1"
    and "s2 = run s1 ops1"
  shows "snd (send0 msg opts now0 s0) = Some d
       \<and> msg_id (last (bus_sent s1)) = Some k
       \<and> sorted (map fst (timeouts s2))
       \<and> (deadline, k) \<in> set (timeouts s2)
       \<and> responsePromises s2 k = Some d
       \<and> d \<notin> fst ` set (settled s2)
       \<and> (timeoutWorkerInterval s2 \<and> deadline \<le> now \<longrightarrow>
            responsePromises (step s2 (OpTimeoutWorker now)) k = None
          \<and> filter (\<lambda>e. fst e = d) (settled (step s2 (OpTimeoutWorker now)))
              = [(d, RejectWith ''Response timed out.'')]
          \<and> (\<forall>ops'. filter (\<lambda>e. fst e = d)
                       (settled (run (step s2 (OpTimeoutWorker now)) ops'))
              = [(d, RejectWith ''Response timed out.'')]))
       \<and> (listening s2 \<and> msg_type resp = ''actor-response'' \<and> msg_id resp = Some k
          \<and> actorId resp = Some (actor_id s2) \<and> msg_body resp = Some (ResponseBody r) \<longrightarrow>
            responsePromises (step s2 (OpMessage resp t)) k = None
          \<and> filter (\<lambda>e. fst e = d) (settled (step s2 (OpMessage resp t))) = [(d, Resolve r)]
          \<and> (\<forall>ops'. filter (\<lambda>e. fst e = d) (settled (run (step s2 (OpMessage resp t)) ops'))
              = [(d, Resolve r)]))"
proof -
  have tb0: "timeouts_below s0"
    unfolding assms(2) using ForkedActor_timeouts_below assms(1) by (rule run_timeouts_below)
  have aw1: "awaiting deadline k d s1"
    unfolding assms(6,7,8,9) using tb0 assms(3,4,5) by (rule send0_awaiting)
  have aw2: "awaiting deadline k d s2"
    unfolding assms(12) using aw1 assms(10,11) by (rule run_awaiting)
  have s2: "s2 = run (ForkedActor i parent) (ops0 @ OpSend0 msg opts now0 # ops1)"
    by (simp add: assms(2,6,12) run_def)
  have kpos: "0 < k"
    using run_counter_mono[of "ForkedActor i parent" ops0]
    by (simp add: assms(2,7) ForkedActor_def)
  have 1: "snd (send0 msg opts now0 s0) = Some d"
    using assms(4) by (simp add: send0_result assms(8))
  have 2: "msg_id (last (bus_sent s1)) = Some k"
    using assms(3) by (simp add: assms(6,7) send0_bus_sent)
  have 3: "sorted (map fst (timeouts s2))"
    unfolding s2 by (rule run_sorted) (simp add: ForkedActor_def)
  have 4: "(deadline, k) \<in> set (timeouts s2)" and 5: "responsePromises s2 k = Some d"
    using aw2 by (simp_all add: awaiting_def)
  have u: "unsettled (responsePromises s2) (settled s2) (nextPending s2)"
    unfolding s2 using ForkedActor_unsettled by (rule run_unsettled)
  then have 6: "d \<notin> fst ` set (settled s2)" and lt: "d < nextPending s2"
    using 5 unfolding unsettled_def by blast+
  have 7: "timeoutWorkerInterval s2 \<and> deadline \<le> now \<longrightarrow>
            responsePromises (step s2 (OpTimeoutWorker now)) k = None
          \<and> filter (\<lambda>e. fst e = d) (settled (step s2 (OpTimeoutWorker now)))
              = [(d, RejectWith ''Response timed out.'')]
          \<and> (\<forall>ops'. filter (\<lambda>e. fst e = d)
                       (settled (run (step s2 (OpTimeoutWorker now)) ops'))
              = [(d, RejectWith ''Response timed out.'')])"
  proof
    assume a: "timeoutWorkerInterval s2 \<and> deadline \<le> now"
    then have st: "step s2 (OpTimeoutWorker now) = timeoutWorker now s2"
      and le: "deadline \<le> now" by simp_all
    obtain ts rp st where
      eq: "timeoutLoop now (timeouts s2) (responsePromises s2) (settled s2) = (ts, rp, st)"
      by (cases "timeoutLoop now (timeouts s2) (responsePromises s2) (settled s2)")
    from timeoutLoop_rejects[OF 3 4 le eq]
    have "rp k = None" by simp
    then have a1: "responsePromises (timeoutWorker now s2) k = None"
      by (simp add: timeoutWorker_def eq)
    from timeoutLoop_rejects_once[OF 3 4 le eq u 5]
    have a2: "filter (\<lambda>e. fst e = d) (settled (timeoutWorker now s2))
           = [(d, RejectWith ''Response timed out.'')]"
      and gone: "\<forall>k. responsePromises (timeoutWorker now s2) k \<noteq> Some d"
      by (simp_all add: timeoutWorker_def eq)
    have lt': "d < nextPending (timeoutWorker now s2)"
      using lt by (simp add: timeoutWorker_nextPending)
    have a3: "\<forall>ops'. filter (\<lambda>e. fst e = d) (settled (run (timeoutWorker now s2) ops'))
           = [(d, RejectWith ''Response timed out.'')]"
      using run_dropped[OF lt' gone] a2 by simp
    from a1 a2 a3 show "responsePromises (step s2 (OpTimeoutWorker now)) k = None
          \<and> filter (\<lambda>e. fst e = d) (settled (step s2 (OpTimeoutWorker now)))
              = [(d, RejectWith ''Response timed out.'')]
          \<and> (\<forall>ops'. filter (\<lambda>e. fst e = d)
                       (settled (run (step s2 (OpTimeoutWorker now)) ops'))
              = [(d, RejectWith ''Response timed out.'')])"
      unfolding st by (intro conjI)
  qed
  have 8: "listening s2 \<and> msg_type resp = ''actor-response'' \<and> msg_id resp = Some k
          \<and> actorId resp = Some (actor_id s2) \<and> msg_body resp = Some (ResponseBody r) \<longrightarrow>
            responsePromises (step s2 (OpMessage resp t)) k = None
          \<and> filter (\<lambda>e. fst e = d) (settled (step s2 (OpMessage resp t))) = [(d, Resolve r)]
          \<and> (\<forall>ops'. filter (\<lambda>e. fst e = d) (settled (run (step s2 (OpMessage resp t)) ops'))
              = [(d, Resolve r)])"
  proof
    assume a: "listening s2 \<and> msg_type resp = ''actor-response'' \<and> msg_id resp = Some k
          \<and> actorId resp = Some (actor_id s2) \<and> msg_body resp = Some (ResponseBody r)"
    let ?s = "s2\<lparr>lastReceiveTimestamp := Some t\<rparr>"
    have st: "step s2 (OpMessage resp t) = onResponse resp ?s"
      using a kpos by (simp add: onMessage_response)
    have u': "unsettled (responsePromises ?s) (settled ?s) (nextPending ?s)"
      using u by simp
    have r': "responsePromises ?s k = Some d" using 5 by simp
    from a have i: "msg_id resp = Some k" and b: "msg_body resp = Some (ResponseBody r)"
      by simp_all
    from onResponse_settles_once[OF u' r' i b]
    have b2: "filter (\<lambda>e. fst e = d) (settled (onResponse resp ?s)) = [(d, Resolve r)]"
      and gone: "\<forall>k. responsePromises (onResponse resp ?s) k \<noteq> Some d"
      and lt': "d < nextPending (onResponse resp ?s)"
      by simp_all
    have b1: "responsePromises (onResponse resp ?s) k = None"
      using i r' by (simp add: onResponse_def)
    have b3: "\<forall>ops'. filter (\<lambda>e. fst e = d) (settled (run (onResponse resp ?s) ops'))
           = [(d, Resolve r)]"
      using run_dropped[OF lt' gone] b2 by simp
    from b1 b2 b3 show "responsePromises (step s2 (OpMessage resp t)) k = None
          \<and> filter (\<lambda>e. fst e = d) (settled (step s2 (OpMessage resp t))) = [(d, Resolve r)]
          \<and> (\<forall>ops'. filter (\<lambda>e. fst e = d) (settled (run (step s2 (OpMessage resp t)) ops'))
              = [(d, Resolve r)])"
      unfolding st by (intro conjI)
  qed
  from 1 2 3 4 5 6 7 8 show ?thesis by (intro conjI)
qed

theorem timeout_rejects_at_poll_witness:
  "timeouts (run (ForkedActor 7 None)
      [OpSend0 \<lparr>msg_type = ''actor-tree'', msg_id = None, actorId = None, msg_body = None\<rparr>
               \<lparr>receive_opt = True, timeout_opt = 100, actorId_opt = None\<rparr> 0,
       OpSend0 \<lparr>msg_type = ''actor-metrics'', msg_id = None, actorId = None, msg_body = None\<rparr>
               \<lparr>receive_opt = True, timeout_opt = 50, actorId_opt = None\<rparr> 10,
       OpTimeoutWorker 90]) = [(100, 1)]
   \<and> responsePromises (run (ForkedActor 7 None)
      [OpSend0 \<lparr>msg_type = ''actor-tree'', msg_id = None, actorId = None, msg_body = None\<rparr>
               \<lparr>receive_opt = True, timeout_opt = 100, actorId_opt = None\<rparr> 0,
       OpSend0 \<lparr>msg_type = ''actor-metrics'', msg_id = None, actorId = None, msg_body = None\<rparr>
               \<lparr>receive_opt = True, timeout_opt = 50, actorId_opt = None\<rparr> 10,
       OpTimeoutWorker 90]) 1 = Some 0
   \<and> filter (\<lambda>e. fst e = 0) (settled (run (ForkedActor 7 None)
      [OpSend0 \<lparr>msg_type = ''actor-tree'', msg_id = None, actorId = None, msg_body = None\<rparr>
               \<lparr>receive_opt = True, timeout_opt = 100, actorId_opt = None\<rparr> 0,
       OpSend0 \<lparr>msg_type = ''actor-metrics'', msg_id = None, actorId = None, msg_body = None\<rparr>
               \<lparr>receive_opt = True, timeout_opt = 50, actorId_opt = None\<rparr> 10,
       OpTimeoutWorker 90,
       OpTimeoutWorker 1090,
       OpMessage \<lparr>msg_type = ''actor-response'', msg_id = Some 1, actorId = Some 7,
                  msg_body = Some (ResponseBody (JStr ''late''))\<rparr> 1500]))
     = [(0, RejectWith ''Response timed out.'')]
   \<and> filter (\<lambda>e. fst e = 0) (settled (run (ForkedActor 7 None)
      [OpSend0 \<lparr>msg_type = ''actor-tree'', msg_id = None, actorId = None, msg_body = None\<rparr>
               \<lparr>receive_opt = True, timeout_opt = 100, actorId_opt = None\<rparr> 0,
       OpSend0 \<lparr>msg_type = ''actor-metrics'', msg_id = None, actorId = None, msg_body = None\<rparr>
               \<lparr>receive_opt = True, timeout_opt = 50, actorId_opt = None\<rparr> 10,
       OpTimeoutWorker 90,
       OpMessage \<lparr>msg_type = ''actor-response'', msg_id = Some 1, actorId = Some 7,
                  msg_body = Some (ResponseBody (JStr ''late''))\<rparr> 500,
       OpTimeoutWorker 1090]))
     = [(0, Resolve (JStr ''late''))]"
proof -
  let ?req = "\<lparr>msg_type = ''actor-tree'', msg_id = None, actorId = None, msg_body = None\<rparr>"
  let ?opts = "\<lparr>receive_opt = True, timeout_opt = 100, actorId_opt = None\<rparr>"
  let ?req2 = "\<lparr>msg_type = ''actor-metrics'', msg_id = None, actorId = None, msg_body = None\<rparr>"
  let ?opts2 = "\<lparr>receive_opt = True, timeout_opt = 50, actorId_opt = None\<rparr>"
  let ?resp = "\<lparr>msg_type = ''actor-response'', msg_id = Some 1, actorId = Some 7,
                  msg_body = Some (ResponseBody (JStr ''late''))\<rparr>"
  let ?ops1 = "[OpSend0 ?req2 ?opts2 10, OpTimeoutWorker 90]"
  let ?s0 = "run (ForkedActor 7 None) []"
  let ?s1 = "fst (send0 ?req ?opts 0 ?s0)"
  let ?S = "run (ForkedActor 7 None) (OpSend0 ?req ?opts 0 # ?ops1)"
  have k: "idCounter ?s0 = 1" and d: "nextPending ?s0 = 0"
    by (simp_all add: run_def ForkedActor_def)
  have e: "run ?s1 ?ops1 = ?S"
    by (simp add: run_def)
  have ts: "timeouts ?S = [(100, 1)]"
    by (simp add: run_def ForkedActor_def send0_def no_id_def Let_def sortedIndex_def
        timeoutWorker_def)
  have iv: "timeoutWorkerInterval ?S" and li: "listening ?S" and ai: "actor_id ?S = 7"
    by (simp_all add: run_def ForkedActor_def send0_def no_id_def Let_def sortedIndex_def
        timeoutWorker_def)
  have p1: "list_all request_op []" by simp
  have p3: "no_id ?req" by (simp add: no_id_def)
  have p4: "receive_opt ?opts" and p5: "0 < timeout_opt ?opts" by simp_all
  have p10: "list_all request_op ?ops1" by (simp add: no_id_def)
  have p11: "list_all (quiet_op (idCounter ?s0) (0 + nat (timeout_opt ?opts))) ?ops1" by simp
  note T = timeout_rejects_at_poll[where i = 7 and parent = None and now = 1090
      and resp = ?resp and r = "JStr ''late''" and t = 500,
      OF p1 refl p3 p4 p5 refl refl refl refl p10 p11 refl, unfolded k d e]
  from T have r: "responsePromises ?S 1 = Some 0" by blast
  from T iv have a: "filter (\<lambda>e. fst e = 0)
      (settled (run (step ?S (OpTimeoutWorker 1090)) [OpMessage ?resp 1500]))
     = [(0, RejectWith ''Response timed out.'')]"
    by simp
  from T li ai have b: "filter (\<lambda>e. fst e = 0)
      (settled (run (step ?S (OpMessage ?resp 500)) [OpTimeoutWorker 1090]))
     = [(0, Resolve (JStr ''late''))]"
    by simp
  have a': "run (step ?S (OpTimeoutWorker 1090)) [OpMessage ?resp 1500]
            = run (ForkedActor 7 None)
                [OpSend0 ?req ?opts 0, OpSend0 ?req2 ?opts2 10, OpTimeoutWorker 90,
                 OpTimeoutWorker 1090, OpMessage ?resp 1500]"
    by (simp add: run_def)
  have b': "run (step ?S (OpMessage ?resp 500)) [OpTimeoutWorker 1090]
            = run (ForkedActor 7 None)
                [OpSend0 ?req ?opts 0, OpSend0 ?req2 ?opts2 10, OpTimeoutWorker 90,
                 OpMessage ?resp 500, OpTimeoutWorker 1090]"
    by (simp add: run_def)
  from ts r a[unfolded a'] b[unfolded b'] show ?thesis by (intro conjI)
qed

text \<open>
  After an \<open>actor-destroyed\<close> envelope the listener has called \<open>clearInterval\<close>: the
  worker runs no more, and a request that is still pending then is never rejected.
  Below, the request with the id 1 and the deadline 100 is pending when an
  \<open>actor-destroyed\<close> envelope with the id 9 arrives at time 50.
\<close>

lemma no_poll_after_actor_destroyed:
  "settled (run (ForkedActor 7 None)
      [OpSend0 \<lparr>msg_type = ''actor-tree'', msg_id = None, actorId = None, msg_body = None\<rparr>
               \<lparr>receive_opt = True, timeout_opt = 100, actorId_opt = None\<rparr> 0,
       OpMessage \<lparr>msg_type = ''actor-destroyed'', msg_id = Some 9, actorId = Some 7,
                  msg_body = None\<rparr> 50,
       OpTimeoutWorker 1000,
       OpTimeoutWorker 2000]) = []
   \<and> responsePromises (run (ForkedActor 7 None)
      [OpSend0 \<lparr>msg_type = ''actor-tree'', msg_id = None, actorId = None, msg_body = None\<rparr>
               \<lparr>receive_opt = True, timeout_opt = 100, actorId_opt = None\<rparr> 0,
       OpMessage \<lparr>msg_type = ''actor-destroyed'', msg_id = Some 9, actorId = Some 7,
                  msg_body = None\<rparr> 50,
       OpTimeoutWorker 1000,
       OpTimeoutWorker 2000]) 1 = Some 0"
  by (simp add: run_def ForkedActor_def send0_def no_id_def Let_def sortedIndex_def
        timeoutWorker_def onMessage_def onResponse_def)

subsection \<open>Marshalling\<close>

text \<open>
  Claim C6. Each argument is marshalled and \<open>marshalledType\<close> is element 0 of the
  type array for one argument and the array otherwise, as the claim says; but
  decoding does not give back every argument list. A single argument is put into the
  body as it is, and \<open>_decodeMessageBody\<close> cannot tell it from an argument array: a
  single falsy argument (here the number 0) is decoded as no argument at all, and a
  single array argument (here \<open>[1, 2, 3]\<close>, the argument of the repository's
  \<open>howMany\<close> test) is taken for three arguments, whose types are looked up in
  \<open>undefined\<close>, which throws a \<open>TypeError\<close>. Two string arguments come back unchanged.
\<close>

theorem single_argument_round_trip_fails:
  "decodeMessageBody
     \<lparr>marshallers = (\<lambda>name. None),
      forkedActorReferenceMarshaller =
        \<lparr>marshaller_type = ''InterProcessReference'', marshall = id, unmarshall = id\<rparr>,
      remoteActorReferenceMarshaller =
        \<lparr>marshaller_type = ''InterHostReference'', marshall = id, unmarshall = id\<rparr>\<rparr>
     (fst (actorMessageBody
        \<lparr>marshallers = (\<lambda>name. None),
         forkedActorReferenceMarshaller =
           \<lparr>marshaller_type = ''InterProcessReference'', marshall = id, unmarshall = id\<rparr>,
         remoteActorReferenceMarshaller =
           \<lparr>marshaller_type = ''InterHostReference'', marshall = id, unmarshall = id\<rparr>\<rparr>
        \<lparr>marshaller_type = ''InterProcessReference'', marshall = id, unmarshall = id\<rparr>
        ''count'' [JNum 0] True))
     None = Inr []
   \<and> decodeMessageBody
     \<lparr>marshallers = (\<lambda>name. None),
      forkedActorReferenceMarshaller =
        \<lparr>marshaller_type = ''InterProcessReference'', marshall = id, unmarshall = id\<rparr>,
      remoteActorReferenceMarshaller =
        \<lparr>marshaller_type = ''InterHostReference'', marshall = id, unmarshall = id\<rparr>\<rparr>
     (fst (actorMessageBody
        \<lparr>marshallers = (\<lambda>name. None),
         forkedActorReferenceMarshaller =
           \<lparr>marshaller_type = ''InterProcessReference'', marshall = id, unmarshall = id\<rparr>,
         remoteActorReferenceMarshaller =
           \<lparr>marshaller_type = ''InterHostReference'', marshall = id, unmarshall = id\<rparr>\<rparr>
        \<lparr>marshaller_type = ''InterProcessReference'', marshall = id, unmarshall = id\<rparr>
        ''howMany'' [JArr [JNum 1, JNum 2, JNum 3]] True))
     None = Inl TypeError
   \<and> decodeMessageBody
     \<lparr>marshallers = (\<lambda>name. None),
      forkedActorReferenceMarshaller =
        \<lparr>marshaller_type = ''InterProcessReference'', marshall = id, unmarshall = id\<rparr>,
      remoteActorReferenceMarshaller =
        \<lparr>marshaller_type = ''InterHostReference'', marshall = id, unmarshall = id\<rparr>\<rparr>
     (fst (actorMessageBody
        \<lparr>marshallers = (\<lambda>name. None),
         forkedActorReferenceMarshaller =
           \<lparr>marshaller_type = ''InterProcessReference'', marshall = id, unmarshall = id\<rparr>,
         remoteActorReferenceMarshaller =
           \<lparr>marshaller_type = ''InterHostReference'', marshall = id, unmarshall = id\<rparr>\<rparr>
        \<lparr>marshaller_type = ''InterProcessReference'', marshall = id, unmarshall = id\<rparr>
        ''sayHello'' [JStr ''Bob'', JStr ''Jack''] True))
     None = Inr [JStr ''Bob'', JStr ''Jack'']"
  by (simp add: decodeMessageBody_def actorMessageBody_def marshallPart_def
      getMarshallerForMessage_def typeName_def unmarshallPart_def Let_def)

text \<open>
  Where the round trip does hold, for arguments that no marshaller applies to: for
  no argument, for two or more, and for a single argument that is truthy and not
  an array.
\<close>

lemma unmarshallParts_unmarshalled:
  "list_all (\<lambda>t. t = JUndefined) ts \<Longrightarrow> unmarshallParts system (JArr ts) xs idx = Inr xs"
proof (induction xs arbitrary: idx)
  case Nil
  then show ?case by simp
next
  case (Cons x xs)
  have "(if idx < length ts then ts ! idx else JUndefined) = JUndefined"
    using Cons.prems by (auto simp: list_all_length)
  then show ?case using Cons by (simp add: unmarshallPart_def)
qed

lemma round_trip_without_marshallers:
  assumes "list_all (\<lambda>v. \<not> isActor v \<and> getMarshallerForMessage system v = None) message"
    and "\<not> (length message = 1 \<and> isServer (hd message))"
    and "length message = 1 \<longrightarrow> truthy (hd message) \<and> \<not> isArray (hd message)"
  shows "decodeMessageBody system
           (fst (actorMessageBody system referenceMarshaller topic message receive)) None
         = Inr message"
proof -
  have parts: "map (marshallPart system referenceMarshaller) message
                 = map (\<lambda>v. (v, JUndefined)) message"
    using assms(1) by (induction message) (simp_all add: marshallPart_def)
  show ?thesis
  proof (cases "length message = 1")
    case True
    then obtain v where v: "message = [v]" by (cases message) auto
    with assms(3) have "truthy v" "\<not> isArray v" by simp_all
    then show ?thesis
      using assms(2) parts v
      by (simp add: decodeMessageBody_def actorMessageBody_def Let_def unmarshallPart_def)
  next
    case False
    have "unmarshallParts system (JArr (map (\<lambda>v. JUndefined) message)) message 0 = Inr message"
      by (rule unmarshallParts_unmarshalled) (simp add: list_all_iff)
    moreover have "map fst (map (marshallPart system referenceMarshaller) message) = message"
      and "map snd (map (marshallPart system referenceMarshaller) message)
             = map (\<lambda>v. JUndefined) message"
      unfolding parts by (simp_all add: comp_def)
    ultimately show ?thesis
      using False
      by (simp add: decodeMessageBody_def actorMessageBody_def Let_def del: map_map)
  qed
qed

end
